theory Spec2Isabelle
  imports Main
begin

section \<open>The Interview screen of the voice-interview client\<close>

text \<open>
  The theory embeds the component \<open>Interview\<close> (the conversational loop of the live
  interview screen). The component is callback driven: the browser calls a timer callback,
  a speech-recognition handler, an utterance handler, or resumes an \<open>async\<close> function
  after an \<open>await\<close>. Each such callback is a function from state to state here, and
  one call of the browser into the component is one \<open>step\<close>.

  A step has no time: a pending timer keeps the delay it was armed with, and any pending
  timer may be the next one to fire. Where a property is about durations, the steps are
  given times (\<open>timed_step\<close>) and a timer fires no earlier than its delay allows.
\<close>

subsection \<open>Strings\<close>

text \<open>
  Text is a list of 8-bit characters (the Latin-1 range of a JavaScript string).
  \<open>toLowerCase\<close> maps \<open>A..Z\<close> and the upper-case letters of Latin-1 to their
  lower-case letters; \<open>includesStr\<close> is \<open>String.prototype.includes\<close>; \<open>trim\<close>
  removes the white space and line terminators of that range from both ends.
\<close>

definition toLowerChar :: "char \<Rightarrow> char" where
  "toLowerChar c =
     (let n = (of_char c :: nat)
      in if (65 \<le> n \<and> n \<le> 90) \<or> (192 \<le> n \<and> n \<le> 222 \<and> n \<noteq> 215)
         then char_of (n + 32) else c)"

definition toLowerCase :: "string \<Rightarrow> string" where
  "toLowerCase s = map toLowerChar s"

fun startsWith :: "string \<Rightarrow> string \<Rightarrow> bool" where
  "startsWith s [] = True"
| "startsWith [] (p # ps) = False"
| "startsWith (c # cs) (p # ps) = (c = p \<and> startsWith cs ps)"

fun includesStr :: "string \<Rightarrow> string \<Rightarrow> bool" where
  "includesStr [] p = (p = [])"
| "includesStr (c # cs) p = (startsWith (c # cs) p \<or> includesStr cs p)"

definition isWhiteSpace :: "char \<Rightarrow> bool" where
  "isWhiteSpace c =
     (let n = (of_char c :: nat) in (9 \<le> n \<and> n \<le> 13) \<or> n = 32 \<or> n = 160)"

definition trim :: "string \<Rightarrow> string" where
  "trim s = rev (dropWhile isWhiteSpace (rev (dropWhile isWhiteSpace s)))"

fun nth_opt :: "'a list \<Rightarrow> nat \<Rightarrow> 'a option" where
  "nth_opt [] i = None"
| "nth_opt (x # xs) 0 = Some x"
| "nth_opt (x # xs) (Suc i) = nth_opt xs i"

subsection \<open>Data\<close>

text \<open>
  A text that may be \<open>undefined\<close> in the source (an element of \<open>questions\<close> read by
  index, the field \<open>response\<close> of a reply) is a \<open>string option\<close>. The five status
  lines are an enumeration; the conversation history holds the three kinds of entry the
  source appends.
\<close>

datatype status =
  NoStatus | StatusListening | StatusImListening | StatusThinking | StatusAnalyzing

datatype turn =
  Question "string option" nat
| Answer string nat
| AiResponse "string option" nat

record hooks =
  questions :: "string list"
  currentQuestion :: nat
  isListening :: bool
  transcript :: string
  isSpeaking :: bool
  loading :: bool
  statusMessage :: status
  conversationHistory :: "turn list"
  waitingForResponse :: bool

record props =
  initialQuestions :: "string list option"
  hasSpeechRecognition :: bool

text \<open>
  The continuation given to \<open>speakAndWait\<close> (\<open>on_complete\<close>), the callback given to
  \<open>setTimeout\<close> (\<open>callback\<close>) and the rest of an \<open>async\<close> function after an
  \<open>await\<close> (\<open>pending\<close>) are first-order data: one constructor for each closure of the
  source, with the values the closure captures.
\<close>

datatype on_complete =
  AfterGreeting
| AfterQuestion
| AfterRepeat
| AfterAiResponse string string
| AfterFallback
| AfterTransition nat
| AfterClosing
| AfterCompleted

datatype callback =
  StartInterview
| AskQuestion nat
| StartContinuousListening
| RecognitionStart
| SilenceExpiry
| Speak string on_complete
| HandleNextQuestion string
| CompleteInterview
| SetCurrentViewHistory

datatype after_save = ThenCompleteInterview | ThenGenerateAIResponse

datatype pending =
  AwaitSave string after_save
| AwaitGenerate string
| AwaitGenerateJson string
| AwaitComplete
| AwaitCompleteJson

datatype request =
  SubmitAnswer "string option" string
| GenerateAiResponse "string option" string nat nat
| CompleteSession

text \<open>
  What the browser settles a promise with: \<open>fetch\<close> rejects or resolves with a
  response (its \<open>ok\<close> flag), \<open>response.json()\<close> rejects or resolves with the parsed
  body. Of a parsed body the code reads the field \<open>response\<close> only: \<open>JNull\<close> is a
  body on which reading a property throws, \<open>JData v\<close> any other body, \<open>v\<close> the field
  when it is a string.
\<close>

datatype json = JNull | JData "string option"

datatype settle = FetchRejected | FetchResponse bool | JsonRejected | JsonValue json

datatype recognizer = Inactive | Starting | Active | Stopping

text \<open>
  The log of effects records what the component does to the outside, in order: the
  notices it shows, the requests it issues, the change of view it asks for, and each call
  of a continuation given to \<open>speakAndWait\<close>. The props \<open>token\<close> and
  \<open>interviewId\<close> only fill the address and the headers of a request and are left
  out.
\<close>

datatype effect =
  Alert string
| Fetch request
| SetCurrentView string
| Invoked on_complete

datatype error = TypeError | InvalidStateError

type_synonym utterance = "string \<times> on_complete \<times> bool"

type_synonym timer = "nat \<times> nat \<times> callback"

record state =
  hooks :: hooks
  mounted :: bool
  recognitionRef :: bool
  silenceTimerRef :: "nat option"
  finalTranscriptBuffer :: string
  timers :: "timer list"
  nextTimerId :: nat
  awaiting :: "pending list"
  recognizer :: recognizer
  synth :: "utterance list"
  effects :: "effect list"

subsection \<open>React state, timers and the two speech drivers\<close>

text \<open>
  A state setter changes the state of a mounted component and does nothing after the
  component has been unmounted.
\<close>

definition setHooks :: "(hooks \<Rightarrow> hooks) \<Rightarrow> state \<Rightarrow> state" where
  "setHooks f s = (if mounted s then s\<lparr>hooks := f (hooks s)\<rparr> else s)"

definition setTimeout :: "callback \<Rightarrow> nat \<Rightarrow> state \<Rightarrow> nat \<times> state" where
  "setTimeout cb ms s =
     (nextTimerId s,
      s\<lparr>timers := timers s @ [(nextTimerId s, ms, cb)],
        nextTimerId := Suc (nextTimerId s)\<rparr>)"

definition clearTimeout :: "nat \<Rightarrow> state \<Rightarrow> state" where
  "clearTimeout i s = s\<lparr>timers := filter (\<lambda>t. fst t \<noteq> i) (timers s)\<rparr>"

definition alert :: "string \<Rightarrow> state \<Rightarrow> state" where
  "alert msg s = s\<lparr>effects := effects s @ [Alert msg]\<rparr>"

definition fetch :: "request \<Rightarrow> pending \<Rightarrow> state \<Rightarrow> state" where
  "fetch req k s = s\<lparr>effects := effects s @ [Fetch req], awaiting := awaiting s @ [k]\<rparr>"

text \<open>
  The two drivers are the browser's, with the contracts the specification gives them.
  The speech-input driver: \<open>start()\<close> throws unless the recognizer is inactive;
  \<open>stop()\<close> never throws. The speech-output driver: \<open>speak\<close> queues an utterance,
  \<open>cancel\<close> empties the queue, and no handler of a cancelled utterance is called.
\<close>

definition recognition_start :: "state \<Rightarrow> error + state" where
  "recognition_start s =
     (if recognizer s = Inactive then Inr (s\<lparr>recognizer := Starting\<rparr>)
      else Inl InvalidStateError)"

definition recognition_stop :: "state \<Rightarrow> state" where
  "recognition_stop s =
     (if recognizer s = Starting \<or> recognizer s = Active
      then s\<lparr>recognizer := Stopping\<rparr> else s)"

definition synth_cancel :: "state \<Rightarrow> state" where
  "synth_cancel s = s\<lparr>synth := []\<rparr>"

definition synth_speak :: "utterance \<Rightarrow> state \<Rightarrow> state" where
  "synth_speak u s = s\<lparr>synth := synth s @ [u]\<rparr>"

subsection \<open>The functions of the component\<close>

text \<open>
  Every function of the component reads \<open>questions\<close>, \<open>currentQuestion\<close> and
  \<open>isListening\<close> from the render in which it was created (the argument \<open>r\<close>) and
  writes through the setters to the state.
\<close>

definition greeting :: string where
  "greeting = ''Hello! I'm your AI interviewer today. I'll be asking you questions and we'll have a natural conversation. Feel free to elaborate on your answers. Let me start with the first question.''"

definition fallback :: string where
  "fallback = ''Thank you for that answer. Would you like to elaborate, or shall we move to the next question?''"

definition transition :: string where
  "transition = ''Alright, moving on to the next question.''"

definition closing :: string where
  "closing = ''That was the last question. Let me complete your interview and generate your feedback.''"

definition completed :: string where
  "completed = ''Interview complete! Check your history to see your detailed results. Thank you!''"

definition speakAndWait :: "string option \<Rightarrow> on_complete \<Rightarrow> state \<Rightarrow> error + state" where
  "speakAndWait text k s =
     (case text of
        None \<Rightarrow> Inl TypeError
      | Some t \<Rightarrow> Inr (snd (setTimeout (Speak t k) 100 (synth_cancel s))))"

definition speak_now :: "string \<Rightarrow> on_complete \<Rightarrow> state \<Rightarrow> state" where
  "speak_now t k s = synth_speak (t, k, False) s"

definition stopListening :: "state \<Rightarrow> state" where
  "stopListening s =
     (let s1 = (case silenceTimerRef s of
                  Some i \<Rightarrow> (clearTimeout i s)\<lparr>silenceTimerRef := None\<rparr>
                | None \<Rightarrow> s)
      in if recognitionRef s1
         then setHooks (\<lambda>h. h\<lparr>isListening := False\<rparr>) (recognition_stop s1)
         else s1)"

definition startContinuousListening :: "hooks \<Rightarrow> state \<Rightarrow> state" where
  "startContinuousListening r s =
     (let s1 = setHooks (\<lambda>h. h\<lparr>statusMessage := StatusImListening\<rparr>) s
      in if recognitionRef s1
         then snd (setTimeout RecognitionStart 300
                     (if isListening r then recognition_stop s1 else s1))
         else s1)"

text \<open>
  The callback that \<open>startContinuousListening\<close> delays by 300 ms. Its \<open>try\<close> block
  catches what \<open>recognitionRef.current.start()\<close> throws: the \<open>TypeError\<close> of a
  reference that is \<open>null\<close>, and the error of a recognizer that is not inactive.
\<close>

definition recognition_start_now :: "state \<Rightarrow> state" where
  "recognition_start_now s =
     (if recognitionRef s
      then (case recognition_start s of Inl e \<Rightarrow> s | Inr s1 \<Rightarrow> s1)
      else s)"

definition askQuestion :: "hooks \<Rightarrow> nat \<Rightarrow> state \<Rightarrow> state" where
  "askQuestion r questionIndex s =
     (let questionText = nth_opt (questions r) questionIndex;
          s1 = setHooks (\<lambda>h. h\<lparr>conversationHistory :=
                 conversationHistory h @ [Question questionText questionIndex]\<rparr>) s
      in case speakAndWait questionText AfterQuestion s1 of
           Inl e \<Rightarrow> s1
         | Inr s2 \<Rightarrow> s2)"

definition startInterview :: "state \<Rightarrow> state" where
  "startInterview s =
     (case speakAndWait (Some greeting) AfterGreeting s of Inl e \<Rightarrow> s | Inr s1 \<Rightarrow> s1)"

definition handleNextQuestion :: "hooks \<Rightarrow> string \<Rightarrow> state \<Rightarrow> state" where
  "handleNextQuestion r currentAnswer s =
     (if int (currentQuestion r) < int (length (questions r)) - 1
      then (let nextQ = currentQuestion r + 1;
                s1 = setHooks (\<lambda>h. h\<lparr>currentQuestion := nextQ\<rparr>) s
            in case speakAndWait (Some transition) (AfterTransition nextQ) s1 of
                 Inl e \<Rightarrow> s1
               | Inr s2 \<Rightarrow> s2)
      else (case speakAndWait (Some closing) AfterClosing s of
              Inl e \<Rightarrow> s
            | Inr s1 \<Rightarrow> s1))"

definition completeInterview :: "state \<Rightarrow> state" where
  "completeInterview s =
     (let s1 = setHooks (\<lambda>h. h\<lparr>loading := True\<rparr>) s;
          s2 = stopListening s1;
          s3 = setHooks (\<lambda>h. h\<lparr>statusMessage := StatusAnalyzing\<rparr>) s2
      in fetch CompleteSession AwaitComplete s3)"

definition completeInterview_failed :: "state \<Rightarrow> state" where
  "completeInterview_failed s =
     setHooks (\<lambda>h. h\<lparr>loading := False\<rparr>)
       (alert ''Error completing interview. Please try again.'' s)"

definition completeInterview_resume :: "pending \<Rightarrow> settle \<Rightarrow> state \<Rightarrow> state option" where
  "completeInterview_resume p out s =
     (case (p, out) of
        (AwaitComplete, FetchRejected) \<Rightarrow> Some (completeInterview_failed s)
      | (AwaitComplete, FetchResponse ok) \<Rightarrow>
          Some (s\<lparr>awaiting := awaiting s @ [AwaitCompleteJson]\<rparr>)
      | (AwaitCompleteJson, JsonRejected) \<Rightarrow> Some (completeInterview_failed s)
      | (AwaitCompleteJson, JsonValue data) \<Rightarrow>
          (case speakAndWait (Some completed) AfterCompleted s of
             Inl e \<Rightarrow> Some (completeInterview_failed s)
           | Inr s1 \<Rightarrow> Some s1)
      | _ \<Rightarrow> None)"

definition saveCurrentAnswer :: "hooks \<Rightarrow> string \<Rightarrow> after_save \<Rightarrow> state \<Rightarrow> state" where
  "saveCurrentAnswer r answerText k s =
     fetch (SubmitAnswer (nth_opt (questions r) (currentQuestion r)) answerText)
       (AwaitSave answerText k) s"

definition saveCurrentAnswer_resume :: "hooks \<Rightarrow> string \<Rightarrow> settle \<Rightarrow> state \<Rightarrow> state option" where
  "saveCurrentAnswer_resume r answerText out s =
     (case out of
        FetchResponse ok \<Rightarrow>
          Some (setHooks (\<lambda>h. h\<lparr>conversationHistory :=
                  conversationHistory h @ [Answer answerText (currentQuestion r)]\<rparr>) s)
      | FetchRejected \<Rightarrow> Some s
      | _ \<Rightarrow> None)"

definition generateAIResponse :: "hooks \<Rightarrow> string \<Rightarrow> state \<Rightarrow> state" where
  "generateAIResponse r userAnswer s =
     fetch (GenerateAiResponse (nth_opt (questions r) (currentQuestion r)) userAnswer
              (currentQuestion r + 1) (length (questions r)))
       (AwaitGenerate userAnswer) s"

definition generateAIResponse_catch :: "state \<Rightarrow> state" where
  "generateAIResponse_catch s =
     (case speakAndWait (Some fallback) AfterFallback s of Inl e \<Rightarrow> s | Inr s1 \<Rightarrow> s1)"

definition generateAIResponse_resume ::
  "hooks \<Rightarrow> pending \<Rightarrow> settle \<Rightarrow> state \<Rightarrow> state option" where
  "generateAIResponse_resume r p out s =
     (case (p, out) of
        (AwaitGenerate userAnswer, FetchRejected) \<Rightarrow> Some (generateAIResponse_catch s)
      | (AwaitGenerate userAnswer, FetchResponse ok) \<Rightarrow>
          (if \<not> ok then Some (generateAIResponse_catch s)
           else Some (s\<lparr>awaiting := awaiting s @ [AwaitGenerateJson userAnswer]\<rparr>))
      | (AwaitGenerateJson userAnswer, JsonRejected) \<Rightarrow> Some (generateAIResponse_catch s)
      | (AwaitGenerateJson userAnswer, JsonValue JNull) \<Rightarrow> Some (generateAIResponse_catch s)
      | (AwaitGenerateJson userAnswer, JsonValue (JData aiResponse)) \<Rightarrow>
          (let s1 = setHooks (\<lambda>h. h\<lparr>conversationHistory :=
                      conversationHistory h @ [AiResponse aiResponse (currentQuestion r)]\<rparr>) s
           in case aiResponse of
                None \<Rightarrow> Some (generateAIResponse_catch s1)
              | Some a \<Rightarrow>
                  (case speakAndWait aiResponse (AfterAiResponse a userAnswer) s1 of
                     Inl e \<Rightarrow> Some (generateAIResponse_catch s1)
                   | Inr s2 \<Rightarrow> Some s2))
      | _ \<Rightarrow> None)"

definition processUserResponse :: "hooks \<Rightarrow> string \<Rightarrow> state \<Rightarrow> state" where
  "processUserResponse r userText s =
     (let s1 = stopListening s;
          s2 = setHooks (\<lambda>h. h\<lparr>waitingForResponse := True\<rparr>) s1;
          s3 = setHooks (\<lambda>h. h\<lparr>statusMessage := StatusThinking\<rparr>) s2;
          s4 = setHooks (\<lambda>h. h\<lparr>transcript := []\<rparr>) s3;
          lowerText = toLowerCase userText
      in if includesStr lowerText ''next question'' \<or> includesStr lowerText ''move on''
         then handleNextQuestion r userText s4
         else if includesStr lowerText ''repeat'' \<or> includesStr lowerText ''say that again''
         then (let lastQuestion = nth_opt (questions r) (currentQuestion r)
               in case speakAndWait lastQuestion AfterRepeat s4 of
                    Inl e \<Rightarrow> s4
                  | Inr s5 \<Rightarrow> s5)
         else if includesStr lowerText ''complete'' \<or> includesStr lowerText ''finish''
                 \<or> includesStr lowerText ''done''
         then saveCurrentAnswer r userText ThenCompleteInterview s4
         else saveCurrentAnswer r userText ThenGenerateAIResponse s4)"

text \<open>
  The rest of \<open>processUserResponse\<close> after \<open>await saveCurrentAnswer(userText)\<close>:
  \<open>saveCurrentAnswer\<close> finishes first, then the caller goes on.
\<close>

definition processUserResponse_resume ::
  "hooks \<Rightarrow> string \<Rightarrow> after_save \<Rightarrow> settle \<Rightarrow> state \<Rightarrow> state option" where
  "processUserResponse_resume r userText k out s =
     (case saveCurrentAnswer_resume r userText out s of
        None \<Rightarrow> None
      | Some s1 \<Rightarrow>
          (case k of
             ThenCompleteInterview \<Rightarrow> Some (completeInterview s1)
           | ThenGenerateAIResponse \<Rightarrow> Some (generateAIResponse r userText s1)))"

definition onComplete :: "on_complete \<Rightarrow> state \<Rightarrow> state" where
  "onComplete k s =
     (let s0 = s\<lparr>effects := effects s @ [Invoked k]\<rparr>
      in case k of
           AfterGreeting \<Rightarrow> snd (setTimeout (AskQuestion 0) 2000 s0)
         | AfterQuestion \<Rightarrow> snd (setTimeout StartContinuousListening 1500 s0)
         | AfterRepeat \<Rightarrow>
             snd (setTimeout StartContinuousListening 1000
                    (setHooks (\<lambda>h. h\<lparr>waitingForResponse := False\<rparr>) s0))
         | AfterAiResponse aiResponse userAnswer \<Rightarrow>
             (let s1 = setHooks (\<lambda>h. h\<lparr>waitingForResponse := False\<rparr>) s0
              in if includesStr (toLowerCase aiResponse) ''next question''
                    \<or> includesStr (toLowerCase aiResponse) ''let's move''
                 then snd (setTimeout (HandleNextQuestion userAnswer) 1500 s1)
                 else snd (setTimeout StartContinuousListening 1500 s1))
         | AfterFallback \<Rightarrow>
             snd (setTimeout StartContinuousListening 1500
                    (setHooks (\<lambda>h. h\<lparr>waitingForResponse := False\<rparr>) s0))
         | AfterTransition nextQ \<Rightarrow> snd (setTimeout (AskQuestion nextQ) 1000 s0)
         | AfterClosing \<Rightarrow> snd (setTimeout CompleteInterview 2000 s0)
         | AfterCompleted \<Rightarrow> snd (setTimeout SetCurrentViewHistory 2000 s0))"

definition utterance_onstart :: "state \<Rightarrow> state" where
  "utterance_onstart s = setHooks (\<lambda>h. h\<lparr>isSpeaking := True\<rparr>) s"

definition utterance_onend :: "on_complete \<Rightarrow> state \<Rightarrow> state" where
  "utterance_onend k s = onComplete k (setHooks (\<lambda>h. h\<lparr>isSpeaking := False\<rparr>) s)"

definition utterance_onerror :: "on_complete \<Rightarrow> state \<Rightarrow> state" where
  "utterance_onerror k s = onComplete k (setHooks (\<lambda>h. h\<lparr>isSpeaking := False\<rparr>) s)"

definition silence_expired :: "hooks \<Rightarrow> state \<Rightarrow> state" where
  "silence_expired r s =
     (if trim (finalTranscriptBuffer s) \<noteq> []
      then (processUserResponse r (trim (finalTranscriptBuffer s)) s)
             \<lparr>finalTranscriptBuffer := []\<rparr>
      else s)"

fun collect :: "(string \<times> bool) list \<Rightarrow> string \<times> string \<Rightarrow> string \<times> string" where
  "collect [] acc = acc"
| "collect ((t, isFinal) # rs) (interimTranscript, finalTranscript) =
     (if isFinal
      then collect rs (interimTranscript, finalTranscript @ t @ '' '')
      else collect rs (interimTranscript @ t, finalTranscript))"

definition recognition_onresult ::
  "nat \<Rightarrow> (string \<times> bool) list \<Rightarrow> state \<Rightarrow> state" where
  "recognition_onresult resultIndex results s =
     (let (interimTranscript, finalTranscript) = collect (drop resultIndex results) ([], []);
          s1 = (if finalTranscript \<noteq> []
                then (let s2 = s\<lparr>finalTranscriptBuffer :=
                                   finalTranscriptBuffer s @ finalTranscript\<rparr>;
                          s3 = (case silenceTimerRef s2 of
                                  Some i \<Rightarrow> clearTimeout i s2
                                | None \<Rightarrow> s2);
                          (i, s4) = setTimeout SilenceExpiry 2000 s3
                      in s4\<lparr>silenceTimerRef := Some i\<rparr>)
                else s)
      in setHooks (\<lambda>h. h\<lparr>transcript :=
           (if interimTranscript \<noteq> [] then interimTranscript
            else finalTranscriptBuffer s1)\<rparr>) s1)"

definition recognition_onstart :: "state \<Rightarrow> state" where
  "recognition_onstart s =
     setHooks (\<lambda>h. h\<lparr>statusMessage := StatusListening\<rparr>)
       (setHooks (\<lambda>h. h\<lparr>isListening := True\<rparr>) s)"

definition recognition_onerror :: "string \<Rightarrow> state \<Rightarrow> state" where
  "recognition_onerror kind s =
     (if kind = ''network'' then alert ''Network error. Please check your connection.'' s
      else s)"

definition recognition_onend :: "state \<Rightarrow> state" where
  "recognition_onend s = setHooks (\<lambda>h. h\<lparr>isListening := False\<rparr>) s"

definition cleanupSpeech :: "state \<Rightarrow> state" where
  "cleanupSpeech s = synth_cancel (if recognitionRef s then recognition_stop s else s)"

definition cleanup :: "state \<Rightarrow> state" where
  "cleanup s =
     (let s1 = cleanupSpeech s
      in case silenceTimerRef s1 of Some i \<Rightarrow> clearTimeout i s1 | None \<Rightarrow> s1)"

subsection \<open>Mounting, and the steps of the browser\<close>

text \<open>
  The effect of the component has an empty dependency list: it runs once, after the first
  render, and every callback of the session is created by the functions of that render.
  \<open>first_render\<close> is what those functions read.
\<close>

definition first_render :: "props \<Rightarrow> hooks" where
  "first_render p =
     \<lparr>questions = (case initialQuestions p of Some qs \<Rightarrow> qs | None \<Rightarrow> []),
      currentQuestion = 0,
      isListening = False,
      transcript = [],
      isSpeaking = False,
      loading = (initialQuestions p = None),
      statusMessage = NoStatus,
      conversationHistory = [],
      waitingForResponse = False\<rparr>"

definition initializeSpeechRecognition :: "props \<Rightarrow> state \<Rightarrow> state" where
  "initializeSpeechRecognition p s =
     (if \<not> hasSpeechRecognition p
      then alert ''Speech recognition requires Chrome or Edge browser'' s
      else s\<lparr>recognitionRef := True\<rparr>)"

definition mount :: "props \<Rightarrow> state" where
  "mount p =
     (let s0 = \<lparr>hooks = first_render p, mounted = True, recognitionRef = False,
                silenceTimerRef = None, finalTranscriptBuffer = [], timers = [],
                nextTimerId = 1, awaiting = [], recognizer = Inactive, synth = [],
                effects = []\<rparr>;
          s1 = initializeSpeechRecognition p s0
      in if initialQuestions p \<noteq> None \<and> length (questions (first_render p)) > 0
         then snd (setTimeout StartInterview 2000
                     (setHooks (\<lambda>h. h\<lparr>loading := False\<rparr>) s1))
         else s1)"

definition run_callback :: "hooks \<Rightarrow> callback \<Rightarrow> state \<Rightarrow> state" where
  "run_callback r cb s =
     (case cb of
        StartInterview \<Rightarrow> startInterview s
      | AskQuestion i \<Rightarrow> askQuestion r i s
      | StartContinuousListening \<Rightarrow> startContinuousListening r s
      | RecognitionStart \<Rightarrow> recognition_start_now s
      | SilenceExpiry \<Rightarrow> silence_expired r s
      | Speak t k \<Rightarrow> speak_now t k s
      | HandleNextQuestion a \<Rightarrow> handleNextQuestion r a s
      | CompleteInterview \<Rightarrow> completeInterview s
      | SetCurrentViewHistory \<Rightarrow> s\<lparr>effects := effects s @ [SetCurrentView ''history'']\<rparr>)"

definition resume :: "hooks \<Rightarrow> pending \<Rightarrow> settle \<Rightarrow> state \<Rightarrow> state option" where
  "resume r p out s =
     (case p of
        AwaitSave userText k \<Rightarrow> processUserResponse_resume r userText k out s
      | AwaitGenerate a \<Rightarrow> generateAIResponse_resume r p out s
      | AwaitGenerateJson a \<Rightarrow> generateAIResponse_resume r p out s
      | AwaitComplete \<Rightarrow> completeInterview_resume p out s
      | AwaitCompleteJson \<Rightarrow> completeInterview_resume p out s)"

datatype event =
  Fire nat
| RecOnStart
| RecOnResult nat "(string \<times> bool) list"
| RecOnError string
| RecOnEnd
| UttOnStart
| UttOnEnd
| UttOnError
| Settle nat settle
| Unmount

text \<open>
  One call of the browser into the component; \<open>None\<close> when the browser cannot make
  that call in that state. A timer fires while it is pending. The recognizer reports its
  start after \<open>start()\<close>, an error while it is starting or active (its end follows),
  and its end after \<open>stop()\<close> or an error. It delivers results while it is active and
  also while it is ending: \<open>stop()\<close>, unlike \<open>abort()\<close>, lets it return what it has
  heard so far, and \<open>recognition.onresult\<close> does not ask whether the component is
  still listening. The first utterance of the queue starts, and ends or fails; an
  utterance ends only after it started. A promise is settled while the function awaits
  it.
\<close>

definition step :: "hooks \<Rightarrow> event \<Rightarrow> state \<Rightarrow> state option" where
  "step r e s =
     (case e of
        Fire i \<Rightarrow>
          (case find (\<lambda>t. fst t = i) (timers s) of
             None \<Rightarrow> None
           | Some t \<Rightarrow> Some (run_callback r (snd (snd t)) (clearTimeout i s)))
      | RecOnStart \<Rightarrow>
          (if recognizer s = Starting
           then Some (recognition_onstart (s\<lparr>recognizer := Active\<rparr>)) else None)
      | RecOnResult resultIndex results \<Rightarrow>
          (if recognizer s = Active \<or> recognizer s = Stopping
           then Some (recognition_onresult resultIndex results s) else None)
      | RecOnError kind \<Rightarrow>
          (if recognizer s = Starting \<or> recognizer s = Active
           then Some (recognition_onerror kind (s\<lparr>recognizer := Stopping\<rparr>)) else None)
      | RecOnEnd \<Rightarrow>
          (if recognizer s = Stopping
           then Some (recognition_onend (s\<lparr>recognizer := Inactive\<rparr>)) else None)
      | UttOnStart \<Rightarrow>
          (case synth s of
             (t, k, False) # us \<Rightarrow> Some (utterance_onstart (s\<lparr>synth := (t, k, True) # us\<rparr>))
           | _ \<Rightarrow> None)
      | UttOnEnd \<Rightarrow>
          (case synth s of
             (t, k, True) # us \<Rightarrow> Some (utterance_onend k (s\<lparr>synth := us\<rparr>))
           | _ \<Rightarrow> None)
      | UttOnError \<Rightarrow>
          (case synth s of
             (t, k, b) # us \<Rightarrow> Some (utterance_onerror k (s\<lparr>synth := us\<rparr>))
           | _ \<Rightarrow> None)
      | Settle i out \<Rightarrow>
          (if i < length (awaiting s)
           then resume r (awaiting s ! i) out
                  (s\<lparr>awaiting := take i (awaiting s) @ drop (Suc i) (awaiting s)\<rparr>)
           else None)
      | Unmount \<Rightarrow>
          (if mounted s then Some ((cleanup s)\<lparr>mounted := False\<rparr>) else None))"

fun run :: "hooks \<Rightarrow> event list \<Rightarrow> state \<Rightarrow> state option" where
  "run r [] s = Some s"
| "run r (e # es) s = (case step r e s of None \<Rightarrow> None | Some s1 \<Rightarrow> run r es s1)"

subsection \<open>Notions used to state the properties\<close>

text \<open>
  The first four statements of \<open>processUserResponse\<close>, before the text is inspected.
\<close>

definition thinking :: "state \<Rightarrow> state" where
  "thinking s =
     setHooks (\<lambda>h. h\<lparr>transcript := []\<rparr>)
       (setHooks (\<lambda>h. h\<lparr>statusMessage := StatusThinking\<rparr>)
          (setHooks (\<lambda>h. h\<lparr>waitingForResponse := True\<rparr>) (stopListening s)))"

text \<open>
  The test of the code for one of a list of phrases.
\<close>

definition mentions :: "string \<Rightarrow> string list \<Rightarrow> bool" where
  "mentions text phrases = list_ex (includesStr (toLowerCase text)) phrases"

text \<open>
  The classification as the specification words it. A phrase, written in small letters,
  occurs in a text when some stretch of the text reads as the phrase once the case of
  letters is ignored: each character of the stretch is the character of the phrase or,
  where that is a small letter, its capital. The control phrases stand in their order of
  priority; the class of a text is the first class one of whose phrases occurs in it, and
  a normal answer when none does.
\<close>

datatype verdict = Advance | Repeat | Finish | NormalAnswer

definition matches_ci :: "char \<Rightarrow> char \<Rightarrow> bool" where
  "matches_ci c p =
     (c = p \<or> (97 \<le> (of_char p :: nat) \<and> (of_char p :: nat) \<le> 122
                \<and> (of_char c :: nat) + 32 = of_char p))"

definition occurs_in :: "string \<Rightarrow> string \<Rightarrow> bool" where
  "occurs_in phrase text =
     (\<exists>pre mid post. text = pre @ mid @ post \<and> list_all2 matches_ci mid phrase)"

definition control_phrases :: "(verdict \<times> string list) list" where
  "control_phrases =
     [(Advance, [''next question'', ''move on'']),
      (Repeat, [''repeat'', ''say that again'']),
      (Finish, [''complete'', ''finish'', ''done''])]"

definition classify :: "string \<Rightarrow> verdict" where
  "classify text =
     (case find (\<lambda>c. \<exists>p \<in> set (snd c). occurs_in p text) control_phrases of
        Some c \<Rightarrow> fst c
      | None \<Rightarrow> NormalAnswer)"

text \<open>
  The characters of which the control phrases are made: the space and the small letters.
\<close>

definition plain :: "char \<Rightarrow> bool" where
  "plain p =
     ((of_char p :: nat) = 32 \<or> (97 \<le> (of_char p :: nat) \<and> (of_char p :: nat) \<le> 122))"

fun is_alert :: "effect \<Rightarrow> bool" where
  "is_alert (Alert msg) = True"
| "is_alert e = False"

text \<open>The final fragments that one result event delivers, in their order.\<close>

definition finals :: "nat \<times> (string \<times> bool) list \<Rightarrow> string list" where
  "finals ev = map fst (filter snd (drop (fst ev) (snd ev)))"

definition result_event :: "nat \<times> (string \<times> bool) list \<Rightarrow> event" where
  "result_event ev = RecOnResult (fst ev) (snd ev)"

text \<open>
  A session of three questions in a browser with speech recognition, and the calls of the
  browser that take it from mounting to listening for the answer to the first question:
  the timer of the mount effect, the greeting, the first question, and the start of the
  recognizer.
\<close>

definition demo :: props where
  "demo = \<lparr>initialQuestions =
             Some [''Tell me about yourself.'', ''Why this role?'', ''Any questions?''],
           hasSpeechRecognition = True\<rparr>"

definition spoken :: "nat \<Rightarrow> event list" where
  "spoken n = [Fire n, UttOnStart, UttOnEnd]"

definition listen :: "nat \<Rightarrow> event list" where
  "listen n = [Fire n, Fire (n + 1), RecOnStart]"

definition first_question :: "event list" where
  "first_question = [Fire 1] @ spoken 2 @ [Fire 3] @ spoken 4 @ listen 5"

text \<open>
  The user says one final fragment and stays silent until the silence timer \<open>n\<close> fires.
\<close>

definition says :: "string \<Rightarrow> nat \<Rightarrow> event list" where
  "says t n = [RecOnResult 0 [(t, True)], Fire n]"

text \<open>
  Timer identifiers are fresh: \<open>setTimeout\<close> never returns the identifier of a pending
  timer.
\<close>

definition fresh_ids :: "state \<Rightarrow> bool" where
  "fresh_ids s = (\<forall>t \<in> set (timers s). fst t < nextTimerId s)"

text \<open>
  The demo session listening for the first answer.
\<close>

definition listening_demo :: state where
  "listening_demo = the (run (first_render demo) first_question (mount demo))"

text \<open>
  What is pending in a state. The timers other than the silence timer, the promises
  awaited and the utterances of the queue each stand for a continuation of the dialogue;
  so does the capture of speech, which is under way while the recognizer is starting or
  active or a silence timer is pending. \<open>tokens\<close> counts them, and a state is
  \<open>idle\<close> when there is none.
\<close>

definition chain_timers :: "state \<Rightarrow> timer list" where
  "chain_timers s = filter (\<lambda>t. snd (snd t) \<noteq> SilenceExpiry) (timers s)"

definition silence_timers :: "state \<Rightarrow> timer list" where
  "silence_timers s = filter (\<lambda>t. snd (snd t) = SilenceExpiry) (timers s)"

definition capturing :: "state \<Rightarrow> bool" where
  "capturing s =
     (recognizer s = Starting \<or> recognizer s = Active \<or> silence_timers s \<noteq> [])"

definition tokens :: "state \<Rightarrow> nat" where
  "tokens s =
     length (chain_timers s) + length (awaiting s) + length (synth s)
       + (if capturing s then 1 else 0)"

definition idle :: "state \<Rightarrow> bool" where
  "idle s =
     (timers s = [] \<and> awaiting s = [] \<and> synth s = []
      \<and> recognizer s \<noteq> Starting \<and> recognizer s \<noteq> Active)"

text \<open>
  The invariant of a session in which no result arrives after \<open>stop()\<close> (a result that
  does arrive then breaks it). At most one continuation is pending; every pending silence
  timer is the one \<open>silenceTimerRef\<close> names; without a recognition object the recognizer
  stays inactive. While the component is mounted, \<open>isSpeaking\<close> holds only while an
  utterance is queued, and \<open>isListening\<close> only while the recognizer is active or
  ending and nothing but the capture is pending.
\<close>

definition structural :: "state \<Rightarrow> bool" where
  "structural s =
     (tokens s \<le> 1
      \<and> list_all (\<lambda>t. silenceTimerRef s = Some (fst t)) (silence_timers s)
      \<and> (recognitionRef s \<or> recognizer s = Inactive))"

definition hooks_ok :: "state \<Rightarrow> bool" where
  "hooks_ok s =
     ((\<not> isSpeaking (hooks s) \<or> synth s \<noteq> [])
      \<and> (\<not> isListening (hooks s)
           \<or> ((recognizer s = Active \<or> recognizer s = Stopping)
               \<and> chain_timers s = [] \<and> awaiting s = [] \<and> synth s = [])))"

definition invariant :: "state \<Rightarrow> bool" where
  "invariant s =
     (structural s
      \<and> (if mounted s then hooks_ok s
          else \<not> (isListening (hooks s) \<and> isSpeaking (hooks s))))"

text \<open>
  A state in which nothing is pending and neither flag can be on: the state in which a
  timer callback other than the silence expiry, an utterance handler, or the rest of an
  \<open>async\<close> function starts to run.
\<close>

definition rested :: "state \<Rightarrow> bool" where
  "rested s =
     (idle s \<and> (recognitionRef s \<or> recognizer s = Inactive)
      \<and> (if mounted s then \<not> isListening (hooks s) \<and> \<not> isSpeaking (hooks s)
          else \<not> (isListening (hooks s) \<and> isSpeaking (hooks s))))"

text \<open>
  A sequence of calls in which the recognizer delivers no result after \<open>stop()\<close>: each
  result arrives while the recognizer is active.
\<close>

fun prompt :: "hooks \<Rightarrow> event list \<Rightarrow> state \<Rightarrow> bool" where
  "prompt r [] s = True"
| "prompt r (e # es) s =
     ((case e of RecOnResult i rs \<Rightarrow> recognizer s = Active | _ \<Rightarrow> True)
      \<and> (case step r e s of None \<Rightarrow> True | Some s1 \<Rightarrow> prompt r es s1))"



text \<open>
  Time. A clocked state holds the time of the last call of the browser, the time at which
  each timer was armed, and the state. The browser makes a call at a time that is not
  before the last call, and fires a timer no earlier than its delay after it was armed;
  the timers that a call arms are those with an identifier that was not yet given out.
\<close>

type_synonym clocked = "nat \<times> (nat \<Rightarrow> nat) \<times> state"

definition due :: "(nat \<Rightarrow> nat) \<Rightarrow> state \<Rightarrow> event \<Rightarrow> nat" where
  "due armed s e =
     (case e of
        Fire i \<Rightarrow>
          (case find (\<lambda>x. fst x = i) (timers s) of
             None \<Rightarrow> 0
           | Some x \<Rightarrow> armed i + fst (snd x))
      | _ \<Rightarrow> 0)"

definition timed_step :: "hooks \<Rightarrow> nat \<times> event \<Rightarrow> clocked \<Rightarrow> clocked option" where
  "timed_step r te c =
     (let t = fst te; e = snd te; now = fst c; armed = fst (snd c); s = snd (snd c)
      in if t < now \<or> t < due armed s e then None
         else (case step r e s of
                 None \<Rightarrow> None
               | Some s1 \<Rightarrow>
                   Some (t, (\<lambda>j. if nextTimerId s \<le> j then t else armed j), s1)))"

fun timed_run :: "hooks \<Rightarrow> (nat \<times> event) list \<Rightarrow> clocked \<Rightarrow> clocked option" where
  "timed_run r [] c = Some c"
| "timed_run r (te # tes) c =
     (case timed_step r te c of None \<Rightarrow> None | Some c1 \<Rightarrow> timed_run r tes c1)"



text \<open>
  Result events with the time of their arrival. The gaps of a list of times are within a
  window when each time is not before the previous one and less than the window after it.
  In a clocked state the silence timer \<open>j\<close> is the pending one when it is the only silence
  timer among the timers, \<open>silenceTimerRef\<close> names it, and it was armed by the last call.
\<close>

definition timed_result :: "nat \<times> nat \<times> (string \<times> bool) list \<Rightarrow> nat \<times> event" where
  "timed_result tev = (fst tev, result_event (snd tev))"

fun gaps_within :: "nat \<Rightarrow> nat list \<Rightarrow> bool" where
  "gaps_within w [] = True"
| "gaps_within w [t] = True"
| "gaps_within w (t # t' # ts) = (t \<le> t' \<and> t' < t + w \<and> gaps_within w (t' # ts))"

definition silence_pending :: "clocked \<Rightarrow> nat \<Rightarrow> bool" where
  "silence_pending c j =
     (silence_timers (snd (snd c)) = [(j, 2000, SilenceExpiry)]
      \<and> silenceTimerRef (snd (snd c)) = Some j
      \<and> fst (snd c) j = fst c)"

text \<open>
  What the expiry of the silence timer \<open>j\<close> does with the fragments heard: the answer is
  the fragments, each followed by a space, trimmed; it is processed when it is not empty.
\<close>

definition answer_of :: "string list \<Rightarrow> string" where
  "answer_of fragments = trim (concat (map (\<lambda>f. f @ '' '') fragments))"

definition expiry :: "hooks \<Rightarrow> nat \<Rightarrow> string list \<Rightarrow> state \<Rightarrow> state" where
  "expiry r j fragments s =
     (if answer_of fragments \<noteq> []
      then (processUserResponse r (answer_of fragments) (clearTimeout j s))
             \<lparr>finalTranscriptBuffer := []\<rparr>
      else clearTimeout j s)"

text \<open>
  The demo session listening for the first answer at time 0, and two result events: at
  1000 ms the final fragment \<open>hello\<close>, at 2500 ms (with \<open>resultIndex\<close> 1) the final
  fragment \<open>world\<close>.
\<close>

definition listening_clocked_demo :: clocked where
  "listening_clocked_demo = (0, (\<lambda>j. 0), listening_demo)"

definition two_fragments :: "(nat \<times> nat \<times> (string \<times> bool) list) list" where
  "two_fragments =
     [(1000, 0, [(''hello'', True)]),
      (2500, 1, [(''hello'', True), (''world'', True)])]"

text \<open>
  A session with a result that arrives after \<open>stop()\<close>, from the demo session listening
  for the first answer, with the times of the calls in milliseconds. At 1000 the user has
  asked for the question again; the silence timer fires at 3000, and
  \<open>processUserResponse\<close> calls \<open>stopListening\<close> and \<open>speakAndWait\<close>. At 3050 the
  recognizer, which is ending, delivers as final what the user went on to say, and at 3060
  it reports its end. The question is played again from 3100 to 4600, and its continuation
  schedules the next capture. At 5050 the silence timer that the late result armed fires.
  The recognizer is started at 5900. The save and the follow-up request resolve, and the
  follow-up starts to play at 7110.
\<close>

definition late_result_session :: "(nat \<times> event) list" where
  "late_result_session =
     [(1000, RecOnResult 0 [(''Please repeat the question.'', True)]),
      (3000, Fire 7),
      (3050, RecOnResult 1 [(''Please repeat the question.'', True),
                            (''I led a team of five.'', True)]),
      (3060, RecOnEnd),
      (3100, Fire 8), (3100, UttOnStart), (4600, UttOnEnd),
      (5050, Fire 9),
      (5600, Fire 10), (5900, Fire 11), (5950, RecOnStart),
      (6000, Settle 0 (FetchResponse True)),
      (7000, Settle 0 (FetchResponse True)),
      (7010, Settle 0 (JsonValue (JData (Some ''Tell me more about that team.'')))),
      (7110, Fire 12), (7110, UttOnStart)]"

section \<open>Properties\<close>

subsection \<open>Auxiliary facts\<close>

lemma find_snoc:
  "find P (xs @ [y]) = (case find P xs of None \<Rightarrow> (if P y then Some y else None) | Some x \<Rightarrow> Some x)"
  by (induction xs) simp_all

lemma setHooks_mounted: "mounted s \<Longrightarrow> setHooks f s = s\<lparr>hooks := f (hooks s)\<rparr>"
  by (simp add: setHooks_def)

lemma setHooks_unmounted: "\<not> mounted s \<Longrightarrow> setHooks f s = s"
  by (simp add: setHooks_def)

lemma setHooks_fields [simp]:
  "effects (setHooks f s) = effects s"
  "awaiting (setHooks f s) = awaiting s"
  "timers (setHooks f s) = timers s"
  "mounted (setHooks f s) = mounted s"
  "recognizer (setHooks f s) = recognizer s"
  "synth (setHooks f s) = synth s"
  "recognitionRef (setHooks f s) = recognitionRef s"
  "silenceTimerRef (setHooks f s) = silenceTimerRef s"
  "finalTranscriptBuffer (setHooks f s) = finalTranscriptBuffer s"
  "nextTimerId (setHooks f s) = nextTimerId s"
  by (simp_all add: setHooks_def)

lemma stopListening_fields [simp]:
  "effects (stopListening s) = effects s"
  "awaiting (stopListening s) = awaiting s"
  "mounted (stopListening s) = mounted s"
  "synth (stopListening s) = synth s"
  "recognitionRef (stopListening s) = recognitionRef s"
  "finalTranscriptBuffer (stopListening s) = finalTranscriptBuffer s"
  "nextTimerId (stopListening s) = nextTimerId s"
  by (simp_all add: stopListening_def Let_def clearTimeout_def recognition_stop_def
      split: option.splits)

lemma thinking_fields [simp]:
  "effects (thinking s) = effects s"
  "awaiting (thinking s) = awaiting s"
  "mounted (thinking s) = mounted s"
  "synth (thinking s) = synth s"
  "recognitionRef (thinking s) = recognitionRef s"
  "finalTranscriptBuffer (thinking s) = finalTranscriptBuffer s"
  "nextTimerId (thinking s) = nextTimerId s"
  by (simp_all add: thinking_def)

lemma processUserResponse_branches:
  "processUserResponse r t s =
     (if includesStr (toLowerCase t) ''next question'' \<or> includesStr (toLowerCase t) ''move on''
      then handleNextQuestion r t (thinking s)
      else if includesStr (toLowerCase t) ''repeat'' \<or> includesStr (toLowerCase t) ''say that again''
      then (case speakAndWait (nth_opt (questions r) (currentQuestion r)) AfterRepeat (thinking s) of
              Inl e \<Rightarrow> thinking s | Inr s5 \<Rightarrow> s5)
      else if includesStr (toLowerCase t) ''complete'' \<or> includesStr (toLowerCase t) ''finish''
              \<or> includesStr (toLowerCase t) ''done''
      then saveCurrentAnswer r t ThenCompleteInterview (thinking s)
      else saveCurrentAnswer r t ThenGenerateAIResponse (thinking s))"
  by (simp only: processUserResponse_def thinking_def Let_def)

lemma startsWith_iff: "startsWith s p = (\<exists>post. s = p @ post)"
  by (induction s p rule: startsWith.induct) auto

lemma includesStr_iff: "includesStr s p = (\<exists>pre post. s = pre @ p @ post)"
proof (induction s)
  case Nil
  then show ?case by simp
next
  case (Cons c cs)
  show ?case
  proof
    assume "includesStr (c # cs) p"
    then consider "startsWith (c # cs) p" | "includesStr cs p" by auto
    then show "\<exists>pre post. c # cs = pre @ p @ post"
    proof cases
      case 1
      then obtain post where "c # cs = p @ post" by (auto simp add: startsWith_iff)
      then have "c # cs = [] @ p @ post" by simp
      then show ?thesis by blast
    next
      case 2
      with Cons.IH obtain pre post where "cs = pre @ p @ post" by auto
      then have "c # cs = (c # pre) @ p @ post" by simp
      then show ?thesis by blast
    qed
  next
    assume "\<exists>pre post. c # cs = pre @ p @ post"
    then obtain pre post where e: "c # cs = pre @ p @ post" by auto
    show "includesStr (c # cs) p"
    proof (cases pre)
      case Nil
      with e have "startsWith (c # cs) p" by (auto simp add: startsWith_iff)
      then show ?thesis by simp
    next
      case (Cons x xs)
      with e have "cs = xs @ p @ post" by simp
      with Cons.IH have "includesStr cs p" by auto
      then show ?thesis by simp
    qed
  qed
qed

lemma of_char_less: "(of_char c :: nat) < 256"
proof -
  have "(of_char c :: nat) mod 256 = of_char c" by simp
  then show ?thesis by (metis mod_less_divisor zero_less_numeral)
qed

lemma char_of_eq: "n < 256 \<Longrightarrow> (char_of (n :: nat) = p) = (n = of_char p)"
proof
  assume "n < 256" "char_of n = p"
  then have "of_char (char_of n) = (of_char p :: nat)" by simp
  with \<open>n < 256\<close> show "n = of_char p" by simp
next
  assume "n = of_char p"
  then show "char_of n = p" by simp
qed

lemma toLowerChar_plain:
  assumes "plain p"
  shows "(toLowerChar c = p) = matches_ci c p"
proof -
  have l: "(of_char c :: nat) < 256" by (rule of_char_less)
  have e: "(c = p) = ((of_char c :: nat) = of_char p)" by simp
  show ?thesis
    using assms l
    by (auto simp add: toLowerChar_def Let_def matches_ci_def plain_def char_of_eq e
        simp del: of_char_eq_iff)
qed

lemma map_toLowerCase_plain:
  assumes "list_all plain p"
  shows "(toLowerCase mid = p) = list_all2 matches_ci mid p"
  using assms
proof (induction mid arbitrary: p)
  case Nil
  then show ?case by (auto simp add: toLowerCase_def)
next
  case (Cons c cs)
  then show ?case
    by (cases p) (auto simp add: toLowerCase_def toLowerChar_plain)
qed

lemma includes_lower_occurs:
  assumes "list_all plain p"
  shows "includesStr (toLowerCase t) p = occurs_in p t"
proof
  assume "includesStr (toLowerCase t) p"
  then obtain pre post where "toLowerCase t = pre @ p @ post"
    by (auto simp add: includesStr_iff)
  then obtain a v where a: "t = a @ v" and "p @ post = map toLowerChar v"
    by (auto simp add: toLowerCase_def map_eq_append_conv)
  then obtain b c where "v = b @ c" and "map toLowerChar b = p"
    by (auto simp add: append_eq_map_conv)
  with a have t: "t = a @ b @ c" and "map toLowerChar b = p"
    by simp_all
  then have "list_all2 matches_ci b p"
    using map_toLowerCase_plain [OF assms, of b] by (simp add: toLowerCase_def)
  with t show "occurs_in p t" by (auto simp add: occurs_in_def)
next
  assume "occurs_in p t"
  then obtain a b c where t: "t = a @ b @ c" and "list_all2 matches_ci b p"
    by (auto simp add: occurs_in_def)
  then have "toLowerCase b = p"
    using map_toLowerCase_plain [OF assms, of b] by simp
  with t have "toLowerCase t = toLowerCase a @ p @ toLowerCase c"
    by (simp add: toLowerCase_def)
  then show "includesStr (toLowerCase t) p"
    by (auto simp add: includesStr_iff)
qed

lemma phrases_plain:
  "list_all plain ''next question''" "list_all plain ''move on''"
  "list_all plain ''repeat''" "list_all plain ''say that again''"
  "list_all plain ''complete''" "list_all plain ''finish''" "list_all plain ''done''"
  by (simp_all add: plain_def)

lemma classify_cases:
  "classify t =
     (if includesStr (toLowerCase t) ''next question'' \<or> includesStr (toLowerCase t) ''move on''
      then Advance
      else if includesStr (toLowerCase t) ''repeat'' \<or> includesStr (toLowerCase t) ''say that again''
      then Repeat
      else if includesStr (toLowerCase t) ''complete'' \<or> includesStr (toLowerCase t) ''finish''
              \<or> includesStr (toLowerCase t) ''done''
      then Finish
      else NormalAnswer)"
  by (simp add: classify_def control_phrases_def
      includes_lower_occurs [OF phrases_plain(1), symmetric]
      includes_lower_occurs [OF phrases_plain(2), symmetric]
      includes_lower_occurs [OF phrases_plain(3), symmetric]
      includes_lower_occurs [OF phrases_plain(4), symmetric]
      includes_lower_occurs [OF phrases_plain(5), symmetric]
      includes_lower_occurs [OF phrases_plain(6), symmetric]
      includes_lower_occurs [OF phrases_plain(7), symmetric])


lemma settle_save:
  assumes "out = FetchRejected \<or> out = FetchResponse ok"
  shows "step r (Settle (length (awaiting s)) out) (saveCurrentAnswer r t k s) =
           processUserResponse_resume r t k out (s\<lparr>effects := effects s @ [Fetch (SubmitAnswer (nth_opt (questions r) (currentQuestion r)) t)]\<rparr>)"
  by (simp add: step_def saveCurrentAnswer_def fetch_def resume_def)

text \<open>
  C1. \<open>processUserResponse\<close> handles a buffered answer by its class: the first class, in
  the order advance, repeat, finish, one of whose phrases occurs in the text as a stretch
  of it, whatever the case of its letters; a text in which no control phrase occurs is a
  normal answer: the submit-answer request is issued, and once that request has settled,
  however it settled, the follow-up request is issued.
\<close>

theorem classification_priority:
  "processUserResponse r t s =
     (case classify t of
        Advance \<Rightarrow> handleNextQuestion r t (thinking s)
      | Repeat \<Rightarrow>
          (case speakAndWait (nth_opt (questions r) (currentQuestion r)) AfterRepeat (thinking s) of
             Inl e \<Rightarrow> thinking s | Inr s5 \<Rightarrow> s5)
      | Finish \<Rightarrow> saveCurrentAnswer r t ThenCompleteInterview (thinking s)
      | NormalAnswer \<Rightarrow> saveCurrentAnswer r t ThenGenerateAIResponse (thinking s))
   \<and> (classify t = NormalAnswer \<longrightarrow>
        effects (processUserResponse r t s) =
          effects s @ [Fetch (SubmitAnswer (nth_opt (questions r) (currentQuestion r)) t)]
      \<and> awaiting (processUserResponse r t s) = awaiting s @ [AwaitSave t ThenGenerateAIResponse]
      \<and> (\<forall>out \<in> {FetchRejected, FetchResponse True, FetchResponse False}.
           map_option effects
             (step r (Settle (length (awaiting s)) out) (processUserResponse r t s)) =
           Some (effects s @
             [Fetch (SubmitAnswer (nth_opt (questions r) (currentQuestion r)) t),
              Fetch (GenerateAiResponse (nth_opt (questions r) (currentQuestion r)) t
                       (currentQuestion r + 1) (length (questions r)))])))"
proof (intro conjI impI)
  show "processUserResponse r t s =
     (case classify t of
        Advance \<Rightarrow> handleNextQuestion r t (thinking s)
      | Repeat \<Rightarrow>
          (case speakAndWait (nth_opt (questions r) (currentQuestion r)) AfterRepeat (thinking s) of
             Inl e \<Rightarrow> thinking s | Inr s5 \<Rightarrow> s5)
      | Finish \<Rightarrow> saveCurrentAnswer r t ThenCompleteInterview (thinking s)
      | NormalAnswer \<Rightarrow> saveCurrentAnswer r t ThenGenerateAIResponse (thinking s))"
    by (simp add: processUserResponse_branches classify_cases)
next
  assume n: "classify t = NormalAnswer"
  then have p: "processUserResponse r t s = saveCurrentAnswer r t ThenGenerateAIResponse (thinking s)"
    by (simp add: processUserResponse_branches classify_cases split: if_splits)
  show "effects (processUserResponse r t s) =
          effects s @ [Fetch (SubmitAnswer (nth_opt (questions r) (currentQuestion r)) t)]"
    by (simp add: p saveCurrentAnswer_def fetch_def)
  show "awaiting (processUserResponse r t s) = awaiting s @ [AwaitSave t ThenGenerateAIResponse]"
    by (simp add: p saveCurrentAnswer_def fetch_def)
  have "map_option effects
          (step r (Settle (length (awaiting s)) out) (processUserResponse r t s)) =
        Some (effects s @
          [Fetch (SubmitAnswer (nth_opt (questions r) (currentQuestion r)) t),
           Fetch (GenerateAiResponse (nth_opt (questions r) (currentQuestion r)) t
                    (currentQuestion r + 1) (length (questions r)))])"
    if "out = FetchRejected \<or> out = FetchResponse ok" for out ok
    using that settle_save [OF that, of r "thinking s" t ThenGenerateAIResponse]
    by (auto simp add: p processUserResponse_resume_def saveCurrentAnswer_resume_def
        generateAIResponse_def fetch_def)
  then show "\<forall>out \<in> {FetchRejected, FetchResponse True, FetchResponse False}.
           map_option effects
             (step r (Settle (length (awaiting s)) out) (processUserResponse r t s)) =
           Some (effects s @
             [Fetch (SubmitAnswer (nth_opt (questions r) (currentQuestion r)) t),
              Fetch (GenerateAiResponse (nth_opt (questions r) (currentQuestion r)) t
                       (currentQuestion r + 1) (length (questions r)))])"
    by blast
qed

theorem classification_priority_witness:
  "classify ''Okay, let us MOVE On now.'' = Advance
   \<and> processUserResponse (first_render demo) ''Okay, let us MOVE On now.'' (mount demo) =
       handleNextQuestion (first_render demo) ''Okay, let us MOVE On now.''
         (thinking (mount demo))
   \<and> occurs_in ''done'' ''I am DONE, Next Question please.''
   \<and> classify ''I am DONE, Next Question please.'' = Advance
   \<and> processUserResponse (first_render demo) ''I am DONE, Next Question please.'' (mount demo) =
       handleNextQuestion (first_render demo) ''I am DONE, Next Question please.''
         (thinking (mount demo))
   \<and> occurs_in ''done'' ''Say THAT again? I was not done.''
   \<and> classify ''Say THAT again? I was not done.'' = Repeat
   \<and> classify ''I have FINISHED my answer.'' = Finish
   \<and> processUserResponse (first_render demo) ''I have FINISHED my answer.'' (mount demo) =
       saveCurrentAnswer (first_render demo) ''I have FINISHED my answer.''
         ThenCompleteInterview (thinking (mount demo))
   \<and> classify ''I led a team of five.'' = NormalAnswer
   \<and> effects (processUserResponse (first_render demo) ''I led a team of five.'' (mount demo)) =
       effects (mount demo) @
         [Fetch (SubmitAnswer
            (nth_opt (questions (first_render demo)) (currentQuestion (first_render demo)))
            ''I led a team of five.'')]"
proof -
  have a: "includesStr (toLowerCase ''Okay, let us MOVE On now.'') ''move on''"
    by code_simp
  then have c1: "classify ''Okay, let us MOVE On now.'' = Advance"
    by (simp add: classify_cases)
  have b: "includesStr (toLowerCase ''I am DONE, Next Question please.'') ''next question''"
    by code_simp
  then have c2: "classify ''I am DONE, Next Question please.'' = Advance"
    by (simp add: classify_cases)
  have "includesStr (toLowerCase ''I am DONE, Next Question please.'') ''done''"
    by code_simp
  then have o2: "occurs_in ''done'' ''I am DONE, Next Question please.''"
    by (simp add: includes_lower_occurs [OF phrases_plain(7)])
  have "includesStr (toLowerCase ''Say THAT again? I was not done.'') ''done''"
    by code_simp
  then have o3: "occurs_in ''done'' ''Say THAT again? I was not done.''"
    by (simp add: includes_lower_occurs [OF phrases_plain(7)])
  have "\<not> includesStr (toLowerCase ''Say THAT again? I was not done.'') ''next question''"
    "\<not> includesStr (toLowerCase ''Say THAT again? I was not done.'') ''move on''"
    "includesStr (toLowerCase ''Say THAT again? I was not done.'') ''say that again''"
    by code_simp+
  then have c3: "classify ''Say THAT again? I was not done.'' = Repeat"
    by (simp add: classify_cases)
  have "\<not> includesStr (toLowerCase ''I have FINISHED my answer.'') ''next question''"
    "\<not> includesStr (toLowerCase ''I have FINISHED my answer.'') ''move on''"
    "\<not> includesStr (toLowerCase ''I have FINISHED my answer.'') ''repeat''"
    "\<not> includesStr (toLowerCase ''I have FINISHED my answer.'') ''say that again''"
    "includesStr (toLowerCase ''I have FINISHED my answer.'') ''finish''"
    by code_simp+
  then have c4: "classify ''I have FINISHED my answer.'' = Finish"
    by (simp add: classify_cases)
  have "\<not> includesStr (toLowerCase ''I led a team of five.'') ''next question''"
    "\<not> includesStr (toLowerCase ''I led a team of five.'') ''move on''"
    "\<not> includesStr (toLowerCase ''I led a team of five.'') ''repeat''"
    "\<not> includesStr (toLowerCase ''I led a team of five.'') ''say that again''"
    "\<not> includesStr (toLowerCase ''I led a team of five.'') ''complete''"
    "\<not> includesStr (toLowerCase ''I led a team of five.'') ''finish''"
    "\<not> includesStr (toLowerCase ''I led a team of five.'') ''done''"
    by code_simp+
  then have c5: "classify ''I led a team of five.'' = NormalAnswer"
    by (simp add: classify_cases)
  have p1: "processUserResponse (first_render demo) ''Okay, let us MOVE On now.'' (mount demo) =
       handleNextQuestion (first_render demo) ''Okay, let us MOVE On now.''
         (thinking (mount demo))"
    using classification_priority [of "first_render demo" "''Okay, let us MOVE On now.''"
        "mount demo", THEN conjunct1]
    by (simp add: c1)
  have p2: "processUserResponse (first_render demo) ''I am DONE, Next Question please.'' (mount demo) =
       handleNextQuestion (first_render demo) ''I am DONE, Next Question please.''
         (thinking (mount demo))"
    using classification_priority [of "first_render demo"
        "''I am DONE, Next Question please.''" "mount demo", THEN conjunct1]
    by (simp add: c2)
  have p4: "processUserResponse (first_render demo) ''I have FINISHED my answer.'' (mount demo) =
       saveCurrentAnswer (first_render demo) ''I have FINISHED my answer.''
         ThenCompleteInterview (thinking (mount demo))"
    using classification_priority [of "first_render demo" "''I have FINISHED my answer.''"
        "mount demo", THEN conjunct1]
    by (simp add: c4)
  have p5: "effects (processUserResponse (first_render demo) ''I led a team of five.'' (mount demo)) =
       effects (mount demo) @
         [Fetch (SubmitAnswer
            (nth_opt (questions (first_render demo)) (currentQuestion (first_render demo)))
            ''I led a team of five.'')]"
    using classification_priority [of "first_render demo" "''I led a team of five.''"
        "mount demo", THEN conjunct2, rule_format, OF c5, THEN conjunct1] .
  show ?thesis
    using c1 p1 o2 c2 p2 o3 c3 c4 p4 c5 p5 by (intro conjI)
qed

subsection \<open>Finish phrases\<close>

lemma completeInterview_fields:
  "effects (completeInterview s) = effects s @ [Fetch CompleteSession]"
  "awaiting (completeInterview s) = awaiting s @ [AwaitComplete]"
  "mounted s \<Longrightarrow> loading (hooks (completeInterview s))"
  by (simp_all add: completeInterview_def Let_def fetch_def setHooks_def stopListening_def
      clearTimeout_def recognition_stop_def split: option.splits)

text \<open>
  C7, as amended. A buffered answer that contains a finish phrase and neither an advance
  phrase nor a repeat phrase is persisted (the submit-answer request is issued), and once
  that request has settled, however it settled, the session completes: the completion
  request is issued and the loading view is shown, whatever the number of questions and
  the current index.
\<close>

theorem finish_phrase_completes:
  assumes "mentions t [''complete'', ''finish'', ''done'']"
    and "\<not> mentions t [''next question'', ''move on'']"
    and "\<not> mentions t [''repeat'', ''say that again'']"
    and "out = FetchRejected \<or> out = FetchResponse ok"
  shows "effects (processUserResponse r t s) =
           effects s @ [Fetch (SubmitAnswer (nth_opt (questions r) (currentQuestion r)) t)]
       \<and> (\<exists>s1. step r (Settle (length (awaiting s)) out) (processUserResponse r t s) = Some s1
              \<and> effects s1 = effects s @
                  [Fetch (SubmitAnswer (nth_opt (questions r) (currentQuestion r)) t),
                   Fetch CompleteSession]
              \<and> awaiting s1 = awaiting s @ [AwaitComplete]
              \<and> (mounted s \<longrightarrow> loading (hooks s1)))"
proof -
  have p: "processUserResponse r t s = saveCurrentAnswer r t ThenCompleteInterview (thinking s)"
    using assms(1-3) by (simp add: processUserResponse_branches mentions_def)
  have e: "effects (processUserResponse r t s) =
           effects s @ [Fetch (SubmitAnswer (nth_opt (questions r) (currentQuestion r)) t)]"
    by (simp add: p saveCurrentAnswer_def fetch_def)
  have "step r (Settle (length (awaiting s)) out) (processUserResponse r t s) =
          processUserResponse_resume r t ThenCompleteInterview out
            ((thinking s)\<lparr>effects := effects s @
               [Fetch (SubmitAnswer (nth_opt (questions r) (currentQuestion r)) t)]\<rparr>)"
    using settle_save [OF assms(4), of r "thinking s" t ThenCompleteInterview] by (simp add: p)
  with assms(4) have "\<exists>s1. step r (Settle (length (awaiting s)) out) (processUserResponse r t s) = Some s1
              \<and> effects s1 = effects s @
                  [Fetch (SubmitAnswer (nth_opt (questions r) (currentQuestion r)) t),
                   Fetch CompleteSession]
              \<and> awaiting s1 = awaiting s @ [AwaitComplete]
              \<and> (mounted s \<longrightarrow> loading (hooks s1))"
    by (auto simp add: processUserResponse_resume_def saveCurrentAnswer_resume_def
        completeInterview_fields)
  with e show ?thesis by (rule conjI)
qed

theorem finish_phrase_completes_witness:
  "mentions ''I think I am done.'' [''complete'', ''finish'', ''done'']
   \<and> \<not> mentions ''I think I am done.'' [''next question'', ''move on'']
   \<and> \<not> mentions ''I think I am done.'' [''repeat'', ''say that again'']
   \<and> effects (processUserResponse (first_render demo) ''I think I am done.'' (mount demo)) =
       effects (mount demo) @
         [Fetch (SubmitAnswer
            (nth_opt (questions (first_render demo)) (currentQuestion (first_render demo)))
            ''I think I am done.'')]"
proof -
  have h1: "mentions ''I think I am done.'' [''complete'', ''finish'', ''done'']"
    by code_simp
  have h2: "\<not> mentions ''I think I am done.'' [''next question'', ''move on'']"
    by code_simp
  have h3: "\<not> mentions ''I think I am done.'' [''repeat'', ''say that again'']"
    by code_simp
  have h4: "FetchRejected = FetchRejected \<or> FetchRejected = FetchResponse True"
    by simp
  note c = finish_phrase_completes [OF h1 h2 h3 h4, of "first_render demo" "mount demo"]
  show ?thesis
    using h1 h2 h3 c [THEN conjunct1] by (intro conjI)
qed

text \<open>
  C7 as stated fails: the answer below contains the finish phrase \<open>done\<close> and the
  repeat phrase \<open>repeat\<close>; no request is issued, and the first question is spoken
  again.
\<close>

theorem finish_phrase_counterexample:
  "mentions ''Please repeat that, I am not done.'' [''complete'', ''finish'', ''done'']
   \<and> map_option effects
        (run (first_render demo)
           (first_question @ says ''Please repeat that, I am not done.'' 7) (mount demo)) =
       Some [Invoked AfterGreeting, Invoked AfterQuestion]
   \<and> map_option awaiting
        (run (first_render demo)
           (first_question @ says ''Please repeat that, I am not done.'' 7) (mount demo)) =
       Some []
   \<and> map_option timers
        (run (first_render demo)
           (first_question @ says ''Please repeat that, I am not done.'' 7) (mount demo)) =
       Some [(8, 100, Speak ''Tell me about yourself.'' AfterRepeat)]"
  by code_simp

subsection \<open>A failed save\<close>

lemma setHooks_history_commute:
  "setHooks (\<lambda>h. h\<lparr>conversationHistory := conversationHistory h @ x\<rparr>) (setHooks (\<lambda>h. h\<lparr>loading := b\<rparr>) s) =
   setHooks (\<lambda>h. h\<lparr>loading := b\<rparr>) (setHooks (\<lambda>h. h\<lparr>conversationHistory := conversationHistory h @ x\<rparr>) s)"
  "setHooks (\<lambda>h. h\<lparr>conversationHistory := conversationHistory h @ x\<rparr>) (setHooks (\<lambda>h. h\<lparr>statusMessage := m\<rparr>) s) =
   setHooks (\<lambda>h. h\<lparr>statusMessage := m\<rparr>) (setHooks (\<lambda>h. h\<lparr>conversationHistory := conversationHistory h @ x\<rparr>) s)"
  by (cases "mounted s"; simp add: setHooks_mounted setHooks_unmounted)+

lemma setHooks_stopListening_commute:
  "setHooks (\<lambda>h. h\<lparr>conversationHistory := conversationHistory h @ x\<rparr>) (stopListening s) =
   stopListening (setHooks (\<lambda>h. h\<lparr>conversationHistory := conversationHistory h @ x\<rparr>) s)"
proof (cases "mounted s")
  case True
  then show ?thesis
    by (cases "silenceTimerRef s"; cases "recognitionRef s")
       (simp_all add: stopListening_def Let_def setHooks_mounted clearTimeout_def
         recognition_stop_def)
next
  case False
  then show ?thesis
    by (cases "silenceTimerRef s"; cases "recognitionRef s")
       (simp_all add: stopListening_def Let_def setHooks_unmounted clearTimeout_def
         recognition_stop_def)
qed

lemma setHooks_fetch_commute:
  "setHooks f (fetch req k s) = fetch req k (setHooks f s)"
  by (simp add: setHooks_def fetch_def)

lemma setHooks_completeInterview_commute:
  "setHooks (\<lambda>h. h\<lparr>conversationHistory := conversationHistory h @ x\<rparr>) (completeInterview s) =
   completeInterview (setHooks (\<lambda>h. h\<lparr>conversationHistory := conversationHistory h @ x\<rparr>) s)"
  by (simp only: completeInterview_def Let_def setHooks_fetch_commute
      setHooks_history_commute setHooks_stopListening_commute)

lemma stopListening_history:
  "conversationHistory (hooks (stopListening s)) = conversationHistory (hooks s)"
  by (cases "mounted s"; cases "silenceTimerRef s"; cases "recognitionRef s")
     (simp_all add: stopListening_def Let_def setHooks_mounted setHooks_unmounted
       clearTimeout_def recognition_stop_def)

lemma completeInterview_history:
  "conversationHistory (hooks (completeInterview s)) = conversationHistory (hooks s)"
  by (cases "mounted s")
     (simp_all add: completeInterview_def Let_def fetch_def setHooks_mounted
       setHooks_unmounted stopListening_history)

text \<open>
  C10. When the submit-answer request that \<open>saveCurrentAnswer\<close> awaits rejects, the
  function returns normally to its caller: no notice is shown, no answer is added to the
  conversation history, and the caller goes on as it does after a successful save; the
  two resulting states differ in the answer entry of the history only. For a normal
  answer the caller issues the follow-up request.
\<close>

theorem save_failure_swallowed:
  assumes "i < length (awaiting s)" and "awaiting s ! i = AwaitSave a k"
  shows "\<exists>s_rej s_ok.
      step r (Settle i FetchRejected) s = Some s_rej
    \<and> step r (Settle i (FetchResponse ok)) s = Some s_ok
    \<and> filter is_alert (effects s_rej) = filter is_alert (effects s)
    \<and> conversationHistory (hooks s_rej) = conversationHistory (hooks s)
    \<and> s_ok = setHooks (\<lambda>h. h\<lparr>conversationHistory :=
                 conversationHistory h @ [Answer a (currentQuestion r)]\<rparr>) s_rej
    \<and> (k = ThenGenerateAIResponse \<longrightarrow>
         effects s_rej = effects s @
           [Fetch (GenerateAiResponse (nth_opt (questions r) (currentQuestion r)) a
                     (currentQuestion r + 1) (length (questions r)))]
       \<and> awaiting s_rej =
           take i (awaiting s) @ drop (Suc i) (awaiting s) @ [AwaitGenerate a])"
proof (cases k)
  case ThenCompleteInterview
  then show ?thesis
    using assms
    by (simp add: step_def resume_def processUserResponse_resume_def
        saveCurrentAnswer_resume_def setHooks_completeInterview_commute
        completeInterview_fields completeInterview_history)
next
  case ThenGenerateAIResponse
  then show ?thesis
    using assms
    by (simp add: step_def resume_def processUserResponse_resume_def
        saveCurrentAnswer_resume_def generateAIResponse_def setHooks_fetch_commute)
       (simp add: fetch_def)
qed

theorem save_failure_swallowed_witness:
  "0 < length (awaiting (saveCurrentAnswer (first_render demo) ''I led a team.''
                           ThenGenerateAIResponse (mount demo)))
   \<and> awaiting (saveCurrentAnswer (first_render demo) ''I led a team.''
                 ThenGenerateAIResponse (mount demo)) ! 0 =
       AwaitSave ''I led a team.'' ThenGenerateAIResponse
   \<and> (\<exists>s_rej. step (first_render demo) (Settle 0 FetchRejected)
                 (saveCurrentAnswer (first_render demo) ''I led a team.''
                    ThenGenerateAIResponse (mount demo)) = Some s_rej
        \<and> conversationHistory (hooks s_rej) =
            conversationHistory (hooks (saveCurrentAnswer (first_render demo) ''I led a team.''
                    ThenGenerateAIResponse (mount demo))))"
proof -
  let ?s = "saveCurrentAnswer (first_render demo) ''I led a team.''
              ThenGenerateAIResponse (mount demo)"
  have h1: "0 < length (awaiting ?s)"
    by (simp add: saveCurrentAnswer_def fetch_def)
  have h2: "awaiting ?s ! 0 = AwaitSave ''I led a team.'' ThenGenerateAIResponse"
    by code_simp
  from save_failure_swallowed [OF h1 h2, of "first_render demo" True]
  have "\<exists>s_rej. step (first_render demo) (Settle 0 FetchRejected) ?s = Some s_rej
        \<and> conversationHistory (hooks s_rej) = conversationHistory (hooks ?s)"
    by blast
  with h1 h2 show ?thesis by (intro conjI)
qed

subsection \<open>Advance phrases\<close>

text \<open>
  C2. In a session of three questions the user says \<open>next question\<close> at the first
  question and again at the second. No request is issued at all, so neither answer is
  persisted and the history holds no answer; and after the second command the current
  question index is still 1 and the transition that is about to be spoken leads to
  question 1 again, not to question 2. The handlers read \<open>currentQuestion\<close> of the
  first render, which is 0 for the whole session.
\<close>

theorem advance_not_persisted_and_index_stale:
  "map_option effects
     (run (first_render demo)
        (first_question @ says ''next question'' 7 @ [RecOnEnd] @ spoken 8 @ [Fire 9]
           @ spoken 10 @ listen 11 @ says ''next question'' 13) (mount demo)) =
   Some [Invoked AfterGreeting, Invoked AfterQuestion, Invoked (AfterTransition 1),
         Invoked AfterQuestion]
   \<and> map_option (\<lambda>s. conversationHistory (hooks s))
     (run (first_render demo)
        (first_question @ says ''next question'' 7 @ [RecOnEnd] @ spoken 8 @ [Fire 9]
           @ spoken 10 @ listen 11 @ says ''next question'' 13) (mount demo)) =
   Some [Question (Some ''Tell me about yourself.'') 0, Question (Some ''Why this role?'') 1]
   \<and> map_option (\<lambda>s. currentQuestion (hooks s))
     (run (first_render demo)
        (first_question @ says ''next question'' 7 @ [RecOnEnd] @ spoken 8 @ [Fire 9]
           @ spoken 10 @ listen 11 @ says ''next question'' 13) (mount demo)) =
   Some 1
   \<and> map_option (\<lambda>s. map (\<lambda>t. snd (snd t)) (timers s))
     (run (first_render demo)
        (first_question @ says ''next question'' 7 @ [RecOnEnd] @ spoken 8 @ [Fire 9]
           @ spoken 10 @ listen 11 @ says ''next question'' 13) (mount demo)) =
   Some [Speak transition (AfterTransition 1)]"
  by code_simp

subsection \<open>Completing the session\<close>

text \<open>
  C4. The user finishes the interview, the completion request resolves with a response
  that is not OK (the second \<open>Settle\<close> below) and its body parses: no notice is shown,
  the closing line is spoken and the view changes to the history.
\<close>

theorem failed_completion_proceeds_to_history:
  "map_option effects
     (run (first_render demo)
        (first_question @ says ''I am done.'' 7 @
           [RecOnEnd, Settle 0 (FetchResponse True), Settle 0 (FetchResponse False),
            Settle 0 (JsonValue (JData None))] @ spoken 8 @ [Fire 9]) (mount demo)) =
   Some [Invoked AfterGreeting, Invoked AfterQuestion,
         Fetch (SubmitAnswer (Some ''Tell me about yourself.'') ''I am done.''),
         Fetch CompleteSession, Invoked AfterCompleted, SetCurrentView ''history'']"
  by code_simp

subsection \<open>Unmounting\<close>

text \<open>
  C8. The component is unmounted during the 100 ms between \<open>speakAndWait\<close> and the
  call of \<open>speak\<close>: the pending timer fires after the cleanup and the greeting is
  played; the callbacks that follow it start the recognizer of the unmounted component.
\<close>

theorem callbacks_fire_after_unmount:
  "map_option (\<lambda>s. (mounted s, synth s))
     (run (first_render demo) [Fire 1, Unmount, Fire 2, UttOnStart] (mount demo)) =
   Some (False, [(greeting, AfterGreeting, True)])
   \<and> map_option (\<lambda>s. (mounted s, recognizer s))
     (run (first_render demo)
        ([Fire 1, Unmount] @ spoken 2 @ [Fire 3] @ spoken 4 @ listen 5) (mount demo)) =
   Some (False, Active)"
  by code_simp

subsection \<open>The buffered answer\<close>

text \<open>
  C6 as stated fails: the two final fragments \<open>hello\<close> and \<open>world\<close> are submitted as
  \<open>hello world\<close>, which is not their concatenation.
\<close>

theorem buffered_answer_counterexample:
  "map_option effects
     (run (first_render demo)
        (first_question @
           [RecOnResult 0 [(''hello'', True)],
            RecOnResult 1 [(''hello'', True), (''world'', True)], Fire 8]) (mount demo)) =
   Some [Invoked AfterGreeting, Invoked AfterQuestion,
         Fetch (SubmitAnswer (Some ''Tell me about yourself.'') ''hello world'')]
   \<and> ''hello world'' \<noteq> ''hello'' @ ''world''"
  by code_simp

lemma result_event_pair [simp]: "result_event (i, rs) = RecOnResult i rs"
  by (simp add: result_event_def)

lemma collect_final:
  "snd (collect rs (a, b)) = b @ concat (map (\<lambda>t. t @ '' '') (map fst (filter snd rs)))"
  by (induction rs arbitrary: a b) auto

lemma onresult_buffer:
  "finalTranscriptBuffer (recognition_onresult i rs s) =
     finalTranscriptBuffer s @ concat (map (\<lambda>t. t @ '' '') (finals (i, rs)))"
proof -
  obtain a b where c: "collect (drop i rs) ([], []) = (a, b)"
    by (cases "collect (drop i rs) ([], [])") blast
  have b: "b = concat (map (\<lambda>t. t @ '' '') (finals (i, rs)))"
    using collect_final [of "drop i rs" "[]" "[]"] c by (simp add: finals_def)
  show ?thesis
    unfolding recognition_onresult_def c
    using b
    by (cases "silenceTimerRef s")
       (simp_all add: Let_def setTimeout_def clearTimeout_def)
qed

lemma onresult_fresh: "fresh_ids s \<Longrightarrow> fresh_ids (recognition_onresult i rs s)"
proof -
  assume f: "fresh_ids s"
  obtain a b where c: "collect (drop i rs) ([], []) = (a, b)"
    by (cases "collect (drop i rs) ([], [])") blast
  show ?thesis
    unfolding recognition_onresult_def c
    using f
    by (cases "silenceTimerRef s")
       (auto simp add: Let_def setTimeout_def clearTimeout_def fresh_ids_def less_Suc_eq)
qed

lemma onresult_recognizer [simp]:
  "recognizer (recognition_onresult i rs s) = recognizer s"
proof -
  obtain a b where c: "collect (drop i rs) ([], []) = (a, b)"
    by (cases "collect (drop i rs) ([], [])") blast
  show ?thesis
    unfolding recognition_onresult_def c
    by (cases "silenceTimerRef s")
       (simp_all add: Let_def setTimeout_def clearTimeout_def)
qed

lemma referenced_cleared:
  assumes "list_all (\<lambda>t. ref = Some (fst t)) (filter P xs)"
  shows "filter P (case ref of Some j \<Rightarrow> filter (\<lambda>t. fst t \<noteq> j) xs | None \<Rightarrow> xs) = []"
  using assms by (cases ref) (auto simp add: list_all_iff filter_empty_conv)

lemma onresult_rearms:
  assumes "fresh_ids s"
    and "list_all (\<lambda>t. silenceTimerRef s = Some (fst t)) (silence_timers s)"
    and "finals (i, rs) \<noteq> []"
  shows "silence_timers (recognition_onresult i rs s) = [(nextTimerId s, 2000, SilenceExpiry)]"
    and "silenceTimerRef (recognition_onresult i rs s) = Some (nextTimerId s)"
    and "find (\<lambda>t. fst t = nextTimerId s) (timers (recognition_onresult i rs s)) =
           Some (nextTimerId s, 2000, SilenceExpiry)"
proof -
  obtain a b where c: "collect (drop i rs) ([], []) = (a, b)"
    by (cases "collect (drop i rs) ([], [])") blast
  have b: "b = concat (map (\<lambda>t. t @ '' '') (finals (i, rs)))"
    using collect_final [of "drop i rs" "[]" "[]"] c by (simp add: finals_def)
  have nb: "b \<noteq> []"
    using assms(3) b by (cases "finals (i, rs)") auto
  have n: "find (\<lambda>t. fst t = nextTimerId s) xs = None" if "set xs \<subseteq> set (timers s)" for xs
    using that assms(1) by (force simp add: find_None_iff fresh_ids_def)
  have e: "filter (\<lambda>t. snd (snd t) = SilenceExpiry)
             (case silenceTimerRef s of Some j \<Rightarrow> filter (\<lambda>t. fst t \<noteq> j) (timers s)
              | None \<Rightarrow> timers s) = []"
    using assms(2) unfolding silence_timers_def by (rule referenced_cleared)
  show "silence_timers (recognition_onresult i rs s) = [(nextTimerId s, 2000, SilenceExpiry)]"
    unfolding recognition_onresult_def c
    using nb e
    by (cases "silenceTimerRef s")
       (simp_all add: Let_def setTimeout_def clearTimeout_def silence_timers_def)
  show "silenceTimerRef (recognition_onresult i rs s) = Some (nextTimerId s)"
    unfolding recognition_onresult_def c
    using nb
    by (cases "silenceTimerRef s")
       (simp_all add: Let_def setTimeout_def clearTimeout_def)
  show "find (\<lambda>t. fst t = nextTimerId s) (timers (recognition_onresult i rs s)) =
           Some (nextTimerId s, 2000, SilenceExpiry)"
    unfolding recognition_onresult_def c
    using nb
    by (cases "silenceTimerRef s")
       (simp_all add: Let_def setTimeout_def clearTimeout_def find_snoc n)
qed

lemma timed_result_step:
  assumes "now \<le> fst tev"
    and "finals (snd tev) \<noteq> []"
    and "recognizer s = Active \<or> recognizer s = Stopping"
    and "fresh_ids s"
    and "list_all (\<lambda>t. silenceTimerRef s = Some (fst t)) (silence_timers s)"
  shows "\<exists>c. timed_step r (timed_result tev) (now, armed, s) = Some c
           \<and> fst c = fst tev
           \<and> silence_pending c (nextTimerId s)
           \<and> find (\<lambda>x. fst x = nextTimerId s) (timers (snd (snd c))) =
               Some (nextTimerId s, 2000, SilenceExpiry)
           \<and> fresh_ids (snd (snd c))
           \<and> recognizer (snd (snd c)) = recognizer s
           \<and> finalTranscriptBuffer (snd (snd c)) =
               finalTranscriptBuffer s @ concat (map (\<lambda>f. f @ '' '') (finals (snd tev)))"
proof -
  obtain t i rs where tev: "tev = (t, i, rs)" by (cases tev)
  let ?s1 = "recognition_onresult i rs s"
  let ?c = "(t, (\<lambda>j. if nextTimerId s \<le> j then t else armed j), ?s1)"
  have st: "timed_step r (timed_result tev) (now, armed, s) = Some ?c"
    using assms(1,3) by (auto simp add: tev timed_result_def timed_step_def due_def step_def)
  have f: "finals (i, rs) \<noteq> []"
    using assms(2) by (simp add: tev)
  note re = onresult_rearms [OF assms(4) assms(5) f]
  have "silence_pending ?c (nextTimerId s)"
    by (simp add: silence_pending_def re)
  with st re(3) onresult_fresh [OF assms(4), of i rs] onresult_buffer [of i rs s]
  show ?thesis
    by (simp add: tev)
qed

lemma pending_referenced:
  "silence_pending c j \<Longrightarrow>
   list_all (\<lambda>t. silenceTimerRef (snd (snd c)) = Some (fst t)) (silence_timers (snd (snd c)))"
  by (simp add: silence_pending_def)

lemma results_run:
  assumes "tevs \<noteq> []"
    and "now \<le> fst (hd tevs)"
    and "gaps_within w (map fst tevs)"
    and "\<forall>tev \<in> set tevs. finals (snd tev) \<noteq> []"
    and "recognizer s = Active \<or> recognizer s = Stopping"
    and "fresh_ids s"
    and "list_all (\<lambda>t. silenceTimerRef s = Some (fst t)) (silence_timers s)"
  shows "\<exists>c j. timed_run r (map timed_result tevs) (now, armed, s) = Some c
           \<and> fst c = fst (last tevs)
           \<and> silence_pending c j
           \<and> find (\<lambda>x. fst x = j) (timers (snd (snd c))) = Some (j, 2000, SilenceExpiry)
           \<and> finalTranscriptBuffer (snd (snd c)) =
               finalTranscriptBuffer s
                 @ concat (map (\<lambda>f. f @ '' '') (concat (map (finals \<circ> snd) tevs)))"
  using assms
proof (induction tevs arbitrary: now armed s)
  case Nil
  then show ?case by simp
next
  case (Cons tev rest)
  from Cons.prems(2,4) have a: "now \<le> fst tev" "finals (snd tev) \<noteq> []"
    by simp_all
  from timed_result_step [OF a Cons.prems(5,6,7), of r armed]
  obtain c where c: "timed_step r (timed_result tev) (now, armed, s) = Some c"
      "fst c = fst tev" "silence_pending c (nextTimerId s)"
      "find (\<lambda>x. fst x = nextTimerId s) (timers (snd (snd c))) =
         Some (nextTimerId s, 2000, SilenceExpiry)"
      "fresh_ids (snd (snd c))" "recognizer (snd (snd c)) = recognizer s"
      "finalTranscriptBuffer (snd (snd c)) =
         finalTranscriptBuffer s @ concat (map (\<lambda>f. f @ '' '') (finals (snd tev)))"
    by blast
  show ?case
  proof (cases rest)
    case Nil
    with c show ?thesis
      by auto
  next
    case (Cons tev2 rest2)
    obtain now1 armed1 s1 where c1: "c = (now1, armed1, s1)"
      by (cases c)
    have p1: "rest \<noteq> []"
      by (simp add: Cons)
    have p2: "now1 \<le> fst (hd rest)"
      using Cons.prems(3) c(2) by (simp add: Cons c1)
    have p3: "gaps_within w (map fst rest)"
      using Cons.prems(3) by (simp add: Cons)
    have p4: "\<forall>tev \<in> set rest. finals (snd tev) \<noteq> []"
      using Cons.prems(4) by simp
    have p5: "recognizer s1 = Active \<or> recognizer s1 = Stopping"
      using c(6) Cons.prems(5) by (simp add: c1)
    have p6: "fresh_ids s1"
      using c(5) by (simp add: c1)
    have p7: "list_all (\<lambda>t. silenceTimerRef s1 = Some (fst t)) (silence_timers s1)"
      using pending_referenced [OF c(3)] by (simp add: c1)
    from Cons.IH [OF p1 p2 p3 p4 p5 p6 p7, of armed1]
    obtain c2 j where c2: "timed_run r (map timed_result rest) (now1, armed1, s1) = Some c2"
        "fst c2 = fst (last rest)" "silence_pending c2 j"
        "find (\<lambda>x. fst x = j) (timers (snd (snd c2))) = Some (j, 2000, SilenceExpiry)"
        "finalTranscriptBuffer (snd (snd c2)) =
           finalTranscriptBuffer s1
             @ concat (map (\<lambda>f. f @ '' '') (concat (map (finals \<circ> snd) rest)))"
      by blast
    have "timed_run r (map timed_result (tev # rest)) (now, armed, s) = Some c2"
      using c(1) c2(1) by (simp add: c1)
    moreover have "fst c2 = fst (last (tev # rest))"
      using c2(2) p1 by simp
    moreover have "finalTranscriptBuffer (snd (snd c2)) =
               finalTranscriptBuffer s
                 @ concat (map (\<lambda>f. f @ '' '') (concat (map (finals \<circ> snd) (tev # rest))))"
      using c2(5) c(7) by (simp add: c1)
    ultimately show ?thesis
      using c2(3,4) by blast
  qed
qed

lemma silence_fire:
  assumes "silence_pending c j"
    and "find (\<lambda>x. fst x = j) (timers (snd (snd c))) = Some (j, 2000, SilenceExpiry)"
  shows "map_option (snd \<circ> snd) (timed_step r (t, Fire j) c) =
           (if t < fst c + 2000 then None
            else Some (silence_expired r (clearTimeout j (snd (snd c)))))"
proof -
  obtain now armed s where c: "c = (now, armed, s)" by (cases c)
  from assms(1) have a: "armed j = now"
    by (simp add: silence_pending_def c)
  show ?thesis
    using assms(2) a
    by (auto simp add: c timed_step_def due_def step_def run_callback_def)
qed

lemma expired_expiry:
  assumes "finalTranscriptBuffer s = concat (map (\<lambda>f. f @ '' '') fragments)"
  shows "silence_expired r (clearTimeout j s) = expiry r j fragments s"
  using assms by (simp add: silence_expired_def expiry_def answer_of_def clearTimeout_def)

lemma gaps_prefix:
  assumes "gaps_within w (map fst (pre @ tev # post))" and "pre \<noteq> []"
  shows "gaps_within w (map fst pre) \<and> fst tev < fst (last pre) + w"
  using assms
proof (induction pre)
  case Nil
  then show ?case by simp
next
  case (Cons a pre)
  show ?case
  proof (cases pre)
    case Nil
    with Cons.prems show ?thesis by simp
  next
    case (Cons b pre2)
    with Cons.prems Cons.IH show ?thesis by simp
  qed
qed

text \<open>
  C6, as amended. Result events arrive one after another, each with at least one final
  fragment, the first not before the present time and each of the others less than 2000 ms
  after the one before; the recognizer is active or ending, the buffer is empty, no silence
  timer is pending and timer identifiers are fresh. Then the browser can deliver them all.
  After the last, one silence timer is pending, the one \<open>silenceTimerRef\<close> names, armed
  at that arrival: it cannot fire earlier than 2000 ms after the last arrival, and when it
  fires, the text given to \<open>processUserResponse\<close> is the final fragments in their order of
  arrival, each followed by one space, concatenated and trimmed; when that text is empty,
  nothing is processed. After each event that is not the last, too, one silence timer is
  pending, and it cannot fire before the next event has arrived.
\<close>

theorem buffered_answer:
  assumes "tevs \<noteq> []"
    and "now \<le> fst (hd tevs)"
    and "gaps_within 2000 (map fst tevs)"
    and "\<forall>tev \<in> set tevs. finals (snd tev) \<noteq> []"
    and "recognizer s = Active \<or> recognizer s = Stopping"
    and "finalTranscriptBuffer s = []"
    and "silence_timers s = []"
    and "fresh_ids s"
  shows "(\<exists>c j. timed_run r (map timed_result tevs) (now, armed, s) = Some c
            \<and> fst c = fst (last tevs)
            \<and> silence_pending c j
            \<and> (\<forall>t. map_option (snd \<circ> snd) (timed_step r (t, Fire j) c) =
                  (if t < fst (last tevs) + 2000 then None
                   else Some (expiry r j (concat (map (finals \<circ> snd) tevs)) (snd (snd c))))))
       \<and> (\<forall>pre tev post. tevs = pre @ tev # post \<and> pre \<noteq> [] \<longrightarrow>
            (\<exists>c j. timed_run r (map timed_result pre) (now, armed, s) = Some c
               \<and> silence_pending c j
               \<and> (\<forall>t \<le> fst tev. timed_step r (t, Fire j) c = None)))"
proof (intro conjI allI impI)
  have l: "list_all (\<lambda>t. silenceTimerRef s = Some (fst t)) (silence_timers s)"
    by (simp add: assms(7))
  from results_run [OF assms(1,2,3,4,5,8) l, of r armed]
  obtain c j where c: "timed_run r (map timed_result tevs) (now, armed, s) = Some c"
      "fst c = fst (last tevs)" "silence_pending c j"
      "find (\<lambda>x. fst x = j) (timers (snd (snd c))) = Some (j, 2000, SilenceExpiry)"
      "finalTranscriptBuffer (snd (snd c)) =
         finalTranscriptBuffer s
           @ concat (map (\<lambda>f. f @ '' '') (concat (map (finals \<circ> snd) tevs)))"
    by blast
  have b: "finalTranscriptBuffer (snd (snd c)) =
             concat (map (\<lambda>f. f @ '' '') (concat (map (finals \<circ> snd) tevs)))"
    using c(5) assms(6) by simp
  have "map_option (snd \<circ> snd) (timed_step r (t, Fire j) c) =
          (if t < fst (last tevs) + 2000 then None
           else Some (expiry r j (concat (map (finals \<circ> snd) tevs)) (snd (snd c))))" for t
    using silence_fire [OF c(3,4), of r t] expired_expiry [OF b, of r j]
    by (simp add: c(2))
  with c(1,2,3)
  show "\<exists>c j. timed_run r (map timed_result tevs) (now, armed, s) = Some c
            \<and> fst c = fst (last tevs)
            \<and> silence_pending c j
            \<and> (\<forall>t. map_option (snd \<circ> snd) (timed_step r (t, Fire j) c) =
                  (if t < fst (last tevs) + 2000 then None
                   else Some (expiry r j (concat (map (finals \<circ> snd) tevs)) (snd (snd c)))))"
    by blast
next
  fix pre tev post
  assume "tevs = pre @ tev # post \<and> pre \<noteq> []"
  then have t: "tevs = pre @ tev # post" and p: "pre \<noteq> []"
    by simp_all
  have l: "list_all (\<lambda>t. silenceTimerRef s = Some (fst t)) (silence_timers s)"
    by (simp add: assms(7))
  from gaps_prefix [of 2000 pre tev post] assms(3) p
  have g: "gaps_within 2000 (map fst pre)" "fst tev < fst (last pre) + 2000"
    by (simp_all add: t)
  have h: "now \<le> fst (hd pre)"
    using assms(2) p by (simp add: t)
  have f: "\<forall>tev \<in> set pre. finals (snd tev) \<noteq> []"
    using assms(4) by (simp add: t)
  from results_run [OF p h g(1) f assms(5,8) l, of r armed]
  obtain c j where c: "timed_run r (map timed_result pre) (now, armed, s) = Some c"
      "fst c = fst (last pre)" "silence_pending c j"
      "find (\<lambda>x. fst x = j) (timers (snd (snd c))) = Some (j, 2000, SilenceExpiry)"
    by blast
  have "timed_step r (t', Fire j) c = None" if "t' \<le> fst tev" for t'
    using silence_fire [OF c(3,4), of r t'] that g(2) by (simp add: c(2))
  with c(1,3)
  show "\<exists>c j. timed_run r (map timed_result pre) (now, armed, s) = Some c
               \<and> silence_pending c j
               \<and> (\<forall>t \<le> fst tev. timed_step r (t, Fire j) c = None)"
    by blast
qed

theorem buffered_answer_witness:
  "length two_fragments = 2
   \<and> map fst two_fragments = [1000, 2500]
   \<and> gaps_within 2000 (map fst two_fragments)
   \<and> map (finals \<circ> snd) two_fragments = [[''hello''], [''world'']]
   \<and> answer_of (concat (map (finals \<circ> snd) two_fragments)) = ''hello world''
   \<and> recognizer listening_demo = Active
   \<and> finalTranscriptBuffer listening_demo = []
   \<and> timers listening_demo = []
   \<and> (\<exists>c j. timed_run (first_render demo) (map timed_result two_fragments)
                  listening_clocked_demo = Some c
          \<and> fst c = 2500
          \<and> silence_pending c j
          \<and> timed_step (first_render demo) (4499, Fire j) c = None
          \<and> map_option (snd \<circ> snd) (timed_step (first_render demo) (4500, Fire j) c) =
              Some (expiry (first_render demo) j [''hello'', ''world''] (snd (snd c))))
   \<and> (\<exists>c j. timed_run (first_render demo) (map timed_result (take 1 two_fragments))
                  listening_clocked_demo = Some c
          \<and> silence_pending c j
          \<and> timed_step (first_render demo) (2500, Fire j) c = None)"
proof -
  have h0: "length two_fragments = 2"
    by (simp add: two_fragments_def)
  have h1: "two_fragments \<noteq> []"
    by (simp add: two_fragments_def)
  have h2': "map fst two_fragments = [1000, 2500]"
    by (simp add: two_fragments_def)
  have h2: "0 \<le> fst (hd two_fragments)"
    by simp
  have h3: "gaps_within 2000 (map fst two_fragments)"
    by (simp add: h2')
  have h4': "map (finals \<circ> snd) two_fragments = [[''hello''], [''world'']]"
    by (simp add: two_fragments_def finals_def)
  have h4: "\<forall>tev \<in> set two_fragments. finals (snd tev) \<noteq> []"
    by (simp add: two_fragments_def finals_def)
  have a: "answer_of (concat (map (finals \<circ> snd) two_fragments)) = ''hello world''"
    unfolding h4' by code_simp
  have h5': "recognizer listening_demo = Active"
    by code_simp
  have h5: "recognizer listening_demo = Active \<or> recognizer listening_demo = Stopping"
    by (simp add: h5')
  have h6: "finalTranscriptBuffer listening_demo = []"
    by code_simp
  have h7': "timers listening_demo = []"
    by code_simp
  have h7: "silence_timers listening_demo = []"
    by (simp add: silence_timers_def h7')
  have h8: "fresh_ids listening_demo"
    by (simp add: fresh_ids_def h7')
  have l: "last two_fragments = (2500, 1, [(''hello'', True), (''world'', True)])"
    by (simp add: two_fragments_def)
  have s: "two_fragments = take 1 two_fragments @ (2500, 1, [(''hello'', True), (''world'', True)]) # []
             \<and> take 1 two_fragments \<noteq> []"
    by (simp add: two_fragments_def)
  note c = buffered_answer [OF h1 h2 h3 h4 h5 h6 h7 h8, of "first_render demo" "\<lambda>j. 0"]
  from c [THEN conjunct1]
  obtain c1 j1 where c1:
      "timed_run (first_render demo) (map timed_result two_fragments) (0, (\<lambda>j. 0), listening_demo) = Some c1"
      "fst c1 = fst (last two_fragments)" "silence_pending c1 j1"
      "\<forall>t. map_option (snd \<circ> snd) (timed_step (first_render demo) (t, Fire j1) c1) =
            (if t < fst (last two_fragments) + 2000 then None
             else Some (expiry (first_render demo) j1 (concat (map (finals \<circ> snd) two_fragments))
                          (snd (snd c1))))"
    by blast
  from c1(4) [THEN spec, of 4499] have e1: "timed_step (first_render demo) (4499, Fire j1) c1 = None"
    by (simp add: l)
  from c1(4) [THEN spec, of 4500]
  have e2: "map_option (snd \<circ> snd) (timed_step (first_render demo) (4500, Fire j1) c1) =
              Some (expiry (first_render demo) j1 [''hello'', ''world''] (snd (snd c1)))"
    by (simp add: l h4')
  have g1: "\<exists>c j. timed_run (first_render demo) (map timed_result two_fragments)
                  listening_clocked_demo = Some c
          \<and> fst c = 2500
          \<and> silence_pending c j
          \<and> timed_step (first_render demo) (4499, Fire j) c = None
          \<and> map_option (snd \<circ> snd) (timed_step (first_render demo) (4500, Fire j) c) =
              Some (expiry (first_render demo) j [''hello'', ''world''] (snd (snd c)))"
    using c1(1,2,3) e1 e2 by (auto simp add: l listening_clocked_demo_def)
  from c [THEN conjunct2, THEN spec, THEN spec, THEN spec, THEN mp, OF s]
  obtain c2 j2 where c2:
      "timed_run (first_render demo) (map timed_result (take 1 two_fragments)) (0, (\<lambda>j. 0), listening_demo) = Some c2"
      "silence_pending c2 j2"
      "\<forall>t \<le> fst (2500 :: nat, 1 :: nat, [(''hello'', True), (''world'', True)]).
          timed_step (first_render demo) (t, Fire j2) c2 = None"
    by blast
  from c2(3) have "timed_step (first_render demo) (2500, Fire j2) c2 = None"
    by simp
  with c2(1,2)
  have g2: "\<exists>c j. timed_run (first_render demo) (map timed_result (take 1 two_fragments))
                  listening_clocked_demo = Some c
          \<and> silence_pending c j
          \<and> timed_step (first_render demo) (2500, Fire j) c = None"
    by (auto simp add: listening_clocked_demo_def)
  show ?thesis
    using h0 h2' h3 h4' a h5' h6 h7' g1 g2 by (intro conjI)
qed

subsection \<open>Speech output and speech input\<close>

lemmas inv_defs =
  invariant_def structural_def hooks_ok_def tokens_def chain_timers_def silence_timers_def
  capturing_def

lemmas prim_defs =
  setHooks_def setTimeout_def clearTimeout_def alert_def fetch_def recognition_start_def
  recognition_stop_def synth_cancel_def synth_speak_def

lemma rested_speakAndWait:
  "rested s \<Longrightarrow> speakAndWait q k s = Inr s1 \<Longrightarrow> invariant s1"
  by (cases q) (auto simp add: rested_def idle_def inv_defs speakAndWait_def prim_defs)

lemma rested_speakAndWait_case:
  "rested s \<Longrightarrow> invariant s0 \<Longrightarrow>
   invariant (case speakAndWait q k s of Inl e \<Rightarrow> s0 | Inr s1 \<Rightarrow> s1)"
  by (auto simp add: rested_speakAndWait split: sum.splits)

lemma rested_speakAndWait_option:
  "(case speakAndWait q k s of Inl e \<Rightarrow> Some s0 | Inr s1 \<Rightarrow> Some s1) = Some s2 \<Longrightarrow>
   rested s \<Longrightarrow> invariant s0 \<Longrightarrow> invariant s2"
  by (auto simp add: rested_speakAndWait split: sum.splits)

lemma rested_setHooks:
  assumes "rested s"
    and "\<And>h. isListening (f h) = isListening h"
    and "\<And>h. isSpeaking (f h) = isSpeaking h"
  shows "rested (setHooks f s)"
  using assms by (auto simp add: rested_def idle_def setHooks_def)

lemma rested_invariant: "rested s \<Longrightarrow> invariant s"
  by (auto simp add: rested_def idle_def inv_defs)

lemma rested_startInterview: "rested s \<Longrightarrow> invariant (startInterview s)"
  by (simp add: startInterview_def rested_invariant rested_speakAndWait_case)

lemma rested_askQuestion: "rested s \<Longrightarrow> invariant (askQuestion r i s)"
  by (simp add: askQuestion_def Let_def rested_invariant rested_setHooks
      rested_speakAndWait_case)


lemma rested_setTimeout:
  "rested s \<Longrightarrow> cb \<noteq> SilenceExpiry \<Longrightarrow> invariant (snd (setTimeout cb d s))"
  by (auto simp add: rested_def idle_def inv_defs prim_defs)

lemma rested_fetch: "rested s \<Longrightarrow> invariant (fetch req k s)"
  by (auto simp add: rested_def idle_def inv_defs prim_defs)

lemma rested_recognition_stop: "rested s \<Longrightarrow> rested (recognition_stop s)"
  by (auto simp add: rested_def idle_def prim_defs)

lemma rested_stopListening: "rested s \<Longrightarrow> rested (stopListening s)"
  by (cases "silenceTimerRef s")
     (auto simp add: rested_def idle_def stopListening_def Let_def prim_defs)

lemma rested_startContinuousListening:
  "rested s \<Longrightarrow> invariant (startContinuousListening r s)"
  by (simp add: startContinuousListening_def Let_def rested_invariant rested_setHooks
      rested_setTimeout rested_recognition_stop)

lemma rested_recognition_start_now: "rested s \<Longrightarrow> invariant (recognition_start_now s)"
  by (auto simp add: rested_def idle_def inv_defs recognition_start_now_def prim_defs)

lemma rested_speak_now: "rested s \<Longrightarrow> invariant (speak_now t k s)"
  by (auto simp add: rested_def idle_def inv_defs speak_now_def prim_defs)

lemma rested_handleNextQuestion: "rested s \<Longrightarrow> invariant (handleNextQuestion r a s)"
  by (simp add: handleNextQuestion_def Let_def rested_invariant rested_setHooks
      rested_speakAndWait_case)

lemma rested_completeInterview: "rested s \<Longrightarrow> invariant (completeInterview s)"
  by (simp add: completeInterview_def Let_def rested_fetch rested_setHooks
      rested_stopListening)

lemma rested_effects: "rested (s\<lparr>effects := e\<rparr>) = rested s"
  by (simp add: rested_def idle_def)

lemma rested_run_callback:
  "rested s \<Longrightarrow> cb \<noteq> SilenceExpiry \<Longrightarrow> invariant (run_callback r cb s)"
  by (cases cb)
     (simp_all add: run_callback_def rested_startInterview rested_askQuestion
       rested_startContinuousListening rested_recognition_start_now rested_speak_now
       rested_handleNextQuestion rested_completeInterview rested_effects rested_invariant)

lemma rested_onComplete: "rested s \<Longrightarrow> invariant (onComplete k s)"
  by (cases k)
     (simp_all add: onComplete_def Let_def rested_setTimeout rested_effects
       rested_setHooks)

lemma rested_generateAIResponse_catch:
  "rested s \<Longrightarrow> invariant (generateAIResponse_catch s)"
  by (simp add: generateAIResponse_catch_def rested_invariant rested_speakAndWait_case)

lemma rested_awaiting:
  "rested s \<Longrightarrow> invariant (s\<lparr>awaiting := awaiting s @ [k]\<rparr>)"
  by (auto simp add: rested_def idle_def inv_defs)

lemma rested_alert: "rested s \<Longrightarrow> rested (alert m s)"
  by (simp add: rested_def idle_def alert_def)

lemma rested_resume:
  assumes "rested s" and "resume r p out s = Some s1"
  shows "invariant s1"
proof (cases p)
  case (AwaitSave a k)
  with assms show ?thesis
    by (cases k; cases out)
       (auto simp add: resume_def processUserResponse_resume_def
         saveCurrentAnswer_resume_def generateAIResponse_def rested_completeInterview
         rested_fetch rested_setHooks)
next
  case (AwaitGenerate a)
  with assms show ?thesis
    by (cases out)
       (auto simp add: resume_def generateAIResponse_resume_def
         rested_generateAIResponse_catch rested_awaiting split: if_splits)
next
  case (AwaitGenerateJson a)
  with assms show ?thesis
    by (cases out)
       (auto simp add: resume_def generateAIResponse_resume_def Let_def
         rested_generateAIResponse_catch rested_setHooks
         split: json.splits option.splits
         elim!: rested_speakAndWait_option)
next
  case AwaitComplete
  with assms show ?thesis
    by (cases out)
       (auto simp add: resume_def completeInterview_resume_def completeInterview_failed_def
         rested_awaiting rested_invariant rested_setHooks rested_alert)
next
  case AwaitCompleteJson
  with assms show ?thesis
    by (cases out)
       (auto simp add: resume_def completeInterview_resume_def completeInterview_failed_def
         rested_invariant rested_setHooks rested_alert
         elim!: rested_speakAndWait_option)
qed


lemma timers_empty:
  "chain_timers s = [] \<Longrightarrow> silence_timers s = [] \<Longrightarrow> timers s = []"
  by (cases "timers s") (auto simp add: chain_timers_def silence_timers_def split: if_splits)

lemma chain_timers_clearTimeout:
  "chain_timers (clearTimeout i s) = filter (\<lambda>t. fst t \<noteq> i) (chain_timers s)"
  by (simp add: chain_timers_def clearTimeout_def conj_commute)

lemma silence_timers_clearTimeout:
  "silence_timers (clearTimeout i s) = filter (\<lambda>t. fst t \<noteq> i) (silence_timers s)"
  by (simp add: silence_timers_def clearTimeout_def conj_commute)

lemma single_token:
  assumes "tokens s \<le> 1"
  shows "chain_timers s \<noteq> [] \<Longrightarrow>
           (\<exists>t. chain_timers s = [t]) \<and> awaiting s = [] \<and> synth s = [] \<and> \<not> capturing s"
    and "awaiting s \<noteq> [] \<Longrightarrow>
           (\<exists>p. awaiting s = [p]) \<and> chain_timers s = [] \<and> synth s = [] \<and> \<not> capturing s"
    and "synth s \<noteq> [] \<Longrightarrow>
           (\<exists>u. synth s = [u]) \<and> chain_timers s = [] \<and> awaiting s = [] \<and> \<not> capturing s"
    and "capturing s \<Longrightarrow> chain_timers s = [] \<and> awaiting s = [] \<and> synth s = []"
proof -
  show "chain_timers s \<noteq> [] \<Longrightarrow>
           (\<exists>t. chain_timers s = [t]) \<and> awaiting s = [] \<and> synth s = [] \<and> \<not> capturing s"
    using assms by (cases "chain_timers s") (auto simp add: tokens_def split: if_splits)
  show "awaiting s \<noteq> [] \<Longrightarrow>
           (\<exists>p. awaiting s = [p]) \<and> chain_timers s = [] \<and> synth s = [] \<and> \<not> capturing s"
    using assms by (cases "awaiting s") (auto simp add: tokens_def split: if_splits)
  show "synth s \<noteq> [] \<Longrightarrow>
           (\<exists>u. synth s = [u]) \<and> chain_timers s = [] \<and> awaiting s = [] \<and> \<not> capturing s"
    using assms by (cases "synth s") (auto simp add: tokens_def split: if_splits)
  show "capturing s \<Longrightarrow> chain_timers s = [] \<and> awaiting s = [] \<and> synth s = []"
    using assms by (auto simp add: tokens_def split: if_splits)
qed

lemma fire_chain_rested:
  assumes "invariant s" and "find (\<lambda>t. fst t = i) (timers s) = Some t"
    and "snd (snd t) \<noteq> SilenceExpiry"
  shows "rested (clearTimeout i s)"
proof -
  from assms(2) have t: "t \<in> set (timers s)" "fst t = i"
    by (auto simp add: find_Some_iff)
  with assms(3) have c: "t \<in> set (chain_timers s)"
    by (simp add: chain_timers_def)
  from assms(1) have k: "tokens s \<le> 1"
    by (simp add: invariant_def structural_def)
  from c have "chain_timers s \<noteq> []" by auto
  from single_token(1) [OF k this] c
  have one: "chain_timers s = [t]" "awaiting s = []" "synth s = []" "\<not> capturing s"
    by auto
  have "chain_timers (clearTimeout i s) = []"
    by (simp add: chain_timers_clearTimeout one t)
  moreover have "silence_timers (clearTimeout i s) = []"
    using one(4) by (simp add: silence_timers_clearTimeout capturing_def)
  ultimately have e: "timers (clearTimeout i s) = []"
    by (rule timers_empty)
  have n: "chain_timers s \<noteq> []" using one(1) by simp
  show ?thesis
    using assms(1) e one(2-4) n
    by (auto simp add: rested_def idle_def invariant_def structural_def hooks_ok_def
        capturing_def clearTimeout_def)
qed

lemma fire_silence_paused:
  assumes "invariant s" and "find (\<lambda>t. fst t = i) (timers s) = Some t"
    and "snd (snd t) = SilenceExpiry"
  shows "timers (clearTimeout i s) = [] \<and> awaiting s = [] \<and> synth s = []"
proof -
  from assms(2) have t: "t \<in> set (timers s)" "fst t = i"
    by (auto simp add: find_Some_iff)
  with assms(3) have c: "t \<in> set (silence_timers s)"
    by (simp add: silence_timers_def)
  then have "capturing s"
    by (auto simp add: capturing_def)
  from assms(1) have k: "tokens s \<le> 1"
    by (simp add: invariant_def structural_def)
  from single_token(4) [OF k \<open>capturing s\<close>]
  have one: "chain_timers s = []" "awaiting s = []" "synth s = []"
    by auto
  from assms(1) have "list_all (\<lambda>t. silenceTimerRef s = Some (fst t)) (silence_timers s)"
    by (simp add: invariant_def structural_def)
  then have r: "\<And>x. x \<in> set (silence_timers s) \<Longrightarrow> silenceTimerRef s = Some (fst x)"
    by (simp add: list_all_iff)
  have "\<forall>x \<in> set (silence_timers s). fst x = i"
  proof
    fix x
    assume "x \<in> set (silence_timers s)"
    from r [OF this] r [OF c] t(2) show "fst x = i" by simp
  qed
  then have "silence_timers (clearTimeout i s) = []"
    by (simp add: silence_timers_clearTimeout filter_empty_conv)
  moreover have "chain_timers (clearTimeout i s) = []"
    by (simp add: chain_timers_clearTimeout one)
  ultimately have "timers (clearTimeout i s) = []"
    by (simp add: timers_empty)
  with one show ?thesis by simp
qed

lemma paused_thinking:
  assumes "invariant s" and "timers s = []" and "awaiting s = []" and "synth s = []"
  shows "rested (thinking s)"
  using assms
  by (cases "silenceTimerRef s")
     (auto simp add: rested_def idle_def thinking_def stopListening_def Let_def prim_defs
       invariant_def structural_def hooks_ok_def)

lemma rested_saveCurrentAnswer: "rested s \<Longrightarrow> invariant (saveCurrentAnswer r a k s)"
  by (simp add: saveCurrentAnswer_def rested_fetch)

lemma rested_processUserResponse:
  "rested (thinking s) \<Longrightarrow> invariant (processUserResponse r t s)"
  by (simp add: processUserResponse_branches rested_handleNextQuestion
      rested_speakAndWait_case rested_invariant rested_saveCurrentAnswer)

lemma invariant_buffer: "invariant (s\<lparr>finalTranscriptBuffer := b\<rparr>) = invariant s"
  by (simp add: inv_defs)

lemma clearTimeout_fields:
  "awaiting (clearTimeout i s) = awaiting s"
  "synth (clearTimeout i s) = synth s"
  "recognizer (clearTimeout i s) = recognizer s"
  "recognitionRef (clearTimeout i s) = recognitionRef s"
  "silenceTimerRef (clearTimeout i s) = silenceTimerRef s"
  "mounted (clearTimeout i s) = mounted s"
  "hooks (clearTimeout i s) = hooks s"
  "finalTranscriptBuffer (clearTimeout i s) = finalTranscriptBuffer s"
  by (simp_all add: clearTimeout_def)

lemma invariant_clearTimeout: "invariant s \<Longrightarrow> invariant (clearTimeout i s)"
proof -
  assume a: "invariant s"
  have l: "length (filter P xs) \<le> length xs" for P and xs :: "timer list"
    by simp
  have c: "length (chain_timers (clearTimeout i s)) \<le> length (chain_timers s)"
    by (simp add: chain_timers_clearTimeout)
  have e: "silence_timers (clearTimeout i s) \<noteq> [] \<Longrightarrow> silence_timers s \<noteq> []"
    by (auto simp add: silence_timers_clearTimeout)
  have f: "chain_timers s = [] \<Longrightarrow> chain_timers (clearTimeout i s) = []"
    by (simp add: chain_timers_clearTimeout)
  have t: "tokens (clearTimeout i s) \<le> tokens s"
    using c e by (auto simp add: tokens_def capturing_def clearTimeout_fields)
  have g: "list_all (\<lambda>t. silenceTimerRef s = Some (fst t)) (silence_timers (clearTimeout i s))"
    using a by (auto simp add: invariant_def structural_def silence_timers_clearTimeout
        list_all_iff)
  show ?thesis
    using a t g f
    by (auto simp add: invariant_def structural_def hooks_ok_def clearTimeout_fields)
qed

lemma fire_invariant:
  assumes "invariant s" and "step r (Fire i) s = Some s1"
  shows "invariant s1"
proof -
  from assms(2) obtain t where t: "find (\<lambda>t. fst t = i) (timers s) = Some t"
      and s1: "s1 = run_callback r (snd (snd t)) (clearTimeout i s)"
    by (auto simp add: step_def split: option.splits)
  show ?thesis
  proof (cases "snd (snd t) = SilenceExpiry")
    case True
    from fire_silence_paused [OF assms(1) t True]
    have p: "timers (clearTimeout i s) = []" "awaiting (clearTimeout i s) = []"
        "synth (clearTimeout i s) = []"
      by (simp_all add: clearTimeout_fields)
    have i: "invariant (clearTimeout i s)"
      using assms(1) by (rule invariant_clearTimeout)
    have "rested (thinking (clearTimeout i s))"
      using i p by (rule paused_thinking)
    then show ?thesis
      using i by (simp add: s1 True run_callback_def silence_expired_def invariant_buffer
          rested_processUserResponse)
  next
    case False
    from fire_chain_rested [OF assms(1) t False] show ?thesis
      by (simp add: s1 rested_run_callback False)
  qed
qed


lemma capturing_alone:
  assumes "invariant s" and "recognizer s = Starting \<or> recognizer s = Active"
  shows "chain_timers s = [] \<and> awaiting s = [] \<and> synth s = []"
proof -
  from assms(1) have k: "tokens s \<le> 1"
    by (simp add: invariant_def structural_def)
  from assms(2) have "capturing s"
    by (auto simp add: capturing_def)
  from single_token(4) [OF k this] show ?thesis .
qed

lemma recognizer_invariant:
  assumes "invariant s"
    and "e = RecOnStart \<or> e = RecOnError kind \<or> e = RecOnEnd"
    and "step r e s = Some s1"
  shows "invariant s1"
proof -
  have a: "chain_timers s = [] \<and> awaiting s = [] \<and> synth s = []"
    if "recognizer s = Starting \<or> recognizer s = Active"
    using capturing_alone [OF assms(1) that] .
  from assms(1) have k: "tokens s \<le> 1"
      and l: "list_all (\<lambda>t. silenceTimerRef s = Some (fst t)) (silence_timers s)"
      and o: "recognitionRef s \<or> recognizer s = Inactive"
      and h: "if mounted s then hooks_ok s
              else \<not> (isListening (hooks s) \<and> isSpeaking (hooks s))"
    by (simp_all add: invariant_def structural_def)
  from assms(2) show ?thesis
  proof (elim disjE)
    assume e: "e = RecOnStart"
    with assms(3) have g: "recognizer s = Starting"
        and s1: "s1 = recognition_onstart (s\<lparr>recognizer := Active\<rparr>)"
      by (simp_all add: step_def split: if_splits)
    from a g have b: "chain_timers s = []" "awaiting s = []" "synth s = []"
      by simp_all
    show ?thesis
    proof (cases "mounted s")
      case True
      with b l o h g show ?thesis
        by (simp add: s1 recognition_onstart_def setHooks_mounted inv_defs)
    next
      case False
      with b l o h g show ?thesis
        by (simp add: s1 recognition_onstart_def setHooks_unmounted inv_defs)
    qed
  next
    assume e: "e = RecOnError kind"
    with assms(3) have g: "recognizer s = Starting \<or> recognizer s = Active"
        and s1: "s1 = recognition_onerror kind (s\<lparr>recognizer := Stopping\<rparr>)"
      by (simp_all add: step_def split: if_splits)
    from a g have b: "chain_timers s = []" "awaiting s = []" "synth s = []"
      by simp_all
    from o g have rr: "recognitionRef s" by auto
    have "invariant (s\<lparr>recognizer := Stopping\<rparr>)"
      using b l rr h g by (auto simp add: inv_defs)
    moreover have "invariant (x\<lparr>effects := y\<rparr>) = invariant x" for x y
      by (simp add: inv_defs)
    ultimately show ?thesis
      by (simp add: s1 recognition_onerror_def alert_def)
  next
    assume e: "e = RecOnEnd"
    with assms(3) have g: "recognizer s = Stopping"
        and s1: "s1 = recognition_onend (s\<lparr>recognizer := Inactive\<rparr>)"
      by (simp_all add: step_def split: if_splits)
    show ?thesis
    proof (cases "mounted s")
      case True
      with k l h g show ?thesis
        by (simp add: s1 recognition_onend_def setHooks_mounted inv_defs)
    next
      case False
      with k l h g show ?thesis
        by (simp add: s1 recognition_onend_def setHooks_unmounted inv_defs)
    qed
  qed
qed

lemma invariant_transcript:
  "invariant (setHooks (\<lambda>h. h\<lparr>transcript := x\<rparr>) s) = invariant s"
  by (simp add: inv_defs setHooks_def)

lemma onresult_invariant:
  assumes "invariant s" and "recognizer s = Active"
  shows "invariant (recognition_onresult i rs s)"
proof -
  obtain a b where c: "collect (drop i rs) ([], []) = (a, b)"
    by (cases "collect (drop i rs) ([], [])") blast
  from capturing_alone [OF assms(1)] assms(2)
  have alone: "chain_timers s = []" "awaiting s = []" "synth s = []"
    by simp_all
  from assms(1) have r: "list_all (\<lambda>t. silenceTimerRef s = Some (fst t)) (silence_timers s)"
    by (simp add: invariant_def structural_def)
  show ?thesis
  proof (cases "b = []")
    case True
    then show ?thesis
      unfolding recognition_onresult_def c
      using assms(1) by (simp add: invariant_transcript)
  next
    case False
    let ?s2 = "s\<lparr>finalTranscriptBuffer := finalTranscriptBuffer s @ b\<rparr>"
    let ?s3 = "case silenceTimerRef ?s2 of Some j \<Rightarrow> clearTimeout j ?s2 | None \<Rightarrow> ?s2"
    have cb: "chain_timers ?s2 = []"
      using alone(1) by (simp add: chain_timers_def)
    have c3: "chain_timers ?s3 = []"
      using cb by (cases "silenceTimerRef s") (simp_all add: chain_timers_clearTimeout)
    have sb: "silence_timers ?s2 = silence_timers s"
      by (simp add: silence_timers_def)
    have s3: "silence_timers ?s3 = []"
    proof (cases "silenceTimerRef s")
      case None
      with r have "silence_timers s = []"
        by (cases "silence_timers s") simp_all
      with None sb show ?thesis by simp
    next
      case (Some j)
      with r have "\<forall>x \<in> set (silence_timers s). fst x = j"
        by (auto simp add: list_all_iff)
      then have "filter (\<lambda>t. fst t \<noteq> j) (silence_timers s) = []"
        by (simp add: filter_empty_conv)
      with sb show ?thesis
        by (simp add: Some silence_timers_clearTimeout)
    qed
    have t3: "timers ?s3 = []"
      using c3 s3 by (rule timers_empty)
    have f3: "awaiting ?s3 = []" "synth ?s3 = []" "recognizer ?s3 = Active"
        "recognitionRef ?s3 = recognitionRef s" "mounted ?s3 = mounted s"
        "hooks ?s3 = hooks s"
      using alone assms(2)
      by (cases "silenceTimerRef s"; simp add: clearTimeout_def)+
    from assms(1) assms(2) have h: "if mounted s then \<not> isSpeaking (hooks s)
        else \<not> (isListening (hooks s) \<and> isSpeaking (hooks s))"
      using alone(3) by (auto simp add: invariant_def hooks_ok_def)
    from assms(1) assms(2) have rr: "recognitionRef s"
      by (auto simp add: invariant_def structural_def)
    have "invariant ((snd (setTimeout SilenceExpiry 2000 ?s3))
             \<lparr>silenceTimerRef := Some (fst (setTimeout SilenceExpiry 2000 ?s3))\<rparr>)"
      using t3 f3 h rr
      by (simp add: inv_defs setTimeout_def split: if_splits)
    then show ?thesis
      unfolding recognition_onresult_def c
      using False by (simp add: Let_def invariant_transcript split_beta)
  qed
qed

lemma utterance_invariant:
  assumes "invariant s"
    and "e = UttOnStart \<or> e = UttOnEnd \<or> e = UttOnError"
    and "step r e s = Some s1"
  shows "invariant s1"
proof -
  from assms(2,3) obtain u us where u: "synth s = u # us"
    by (cases "synth s") (auto simp add: step_def)
  from assms(1) have k: "tokens s \<le> 1"
    by (simp add: invariant_def structural_def)
  from single_token(3) [OF k] u
  have one: "us = []" "chain_timers s = []" "awaiting s = []" "\<not> capturing s"
    by auto
  then have t: "timers s = []"
    by (simp add: timers_empty capturing_def)
  obtain x k b where x: "u = (x, k, b)" by (cases u)
  have q: "rested (setHooks (\<lambda>h. h\<lparr>isSpeaking := False\<rparr>) (s\<lparr>synth := []\<rparr>))"
    using assms(1) t one u
    by (auto simp add: rested_def idle_def setHooks_def invariant_def structural_def
        hooks_ok_def capturing_def)
  from assms(2) show ?thesis
  proof (elim disjE)
    assume "e = UttOnStart"
    with assms(3) u one x have s1: "s1 = utterance_onstart (s\<lparr>synth := [(x, k, True)]\<rparr>)"
      by (cases b) (simp_all add: step_def)
    from assms(1) one(4) have g: "recognizer s \<noteq> Starting" "recognizer s \<noteq> Active"
        "recognitionRef s \<or> recognizer s = Inactive"
        "if mounted s then \<not> isListening (hooks s)
         else \<not> (isListening (hooks s) \<and> isSpeaking (hooks s))"
      using u by (auto simp add: capturing_def invariant_def structural_def hooks_ok_def)
    show ?thesis
    proof (cases "mounted s")
      case True
      with g t one(3) show ?thesis
        by (simp add: s1 utterance_onstart_def setHooks_mounted inv_defs)
    next
      case False
      with g t one(3) show ?thesis
        by (simp add: s1 utterance_onstart_def setHooks_unmounted inv_defs)
    qed
  next
    assume "e = UttOnEnd"
    with assms(3) u one x q show ?thesis
      by (cases b)
         (auto simp add: step_def utterance_onend_def rested_onComplete)
  next
    assume "e = UttOnError"
    with assms(3) u one x q show ?thesis
      by (auto simp add: step_def utterance_onerror_def rested_onComplete)
  qed
qed

lemma settle_invariant:
  assumes "invariant s" and "step r (Settle i out) s = Some s1"
  shows "invariant s1"
proof -
  from assms(2) have i: "i < length (awaiting s)"
    by (simp add: step_def split: if_splits)
  then have n: "awaiting s \<noteq> []" by auto
  from assms(1) have k: "tokens s \<le> 1"
    by (simp add: invariant_def structural_def)
  from single_token(2) [OF k n] obtain p where
    one: "awaiting s = [p]" "chain_timers s = []" "synth s = []" "\<not> capturing s"
    by auto
  then have t: "timers s = []"
    by (simp add: timers_empty capturing_def)
  from i one(1) have i0: "i = 0" by simp
  have q: "rested (s\<lparr>awaiting := []\<rparr>)"
    using assms(1) t one
    by (auto simp add: rested_def idle_def invariant_def structural_def hooks_ok_def
        capturing_def)
  from assms(2) have "resume r p out (s\<lparr>awaiting := []\<rparr>) = Some s1"
    by (simp add: step_def one(1) i0)
  with q show ?thesis by (rule rested_resume)
qed

lemma unmount_invariant:
  assumes "invariant s" and "step r Unmount s = Some s1"
  shows "invariant s1"
proof -
  from assms(2) have m: "mounted s" and s1: "s1 = (cleanup s)\<lparr>mounted := False\<rparr>"
    by (simp_all add: step_def split: if_splits)
  let ?x = "(synth_cancel (if recognitionRef s then recognition_stop s else s))\<lparr>mounted := False\<rparr>"
  from assms(1) have k: "tokens s \<le> 1"
      and l: "list_all (\<lambda>t. silenceTimerRef s = Some (fst t)) (silence_timers s)"
      and o: "recognitionRef s \<or> recognizer s = Inactive"
      and h: "\<not> (isListening (hooks s) \<and> isSpeaking (hooks s))"
    using m by (auto simp add: invariant_def structural_def hooks_ok_def)
  have "tokens ?x \<le> tokens s"
    by (auto simp add: tokens_def capturing_def chain_timers_def silence_timers_def
        synth_cancel_def recognition_stop_def)
  with k l o h have c: "invariant ?x"
    by (auto simp add: invariant_def structural_def silence_timers_def synth_cancel_def
        recognition_stop_def)
  have e: "s1 = (case silenceTimerRef s of Some j \<Rightarrow> clearTimeout j ?x | None \<Rightarrow> ?x)"
    by (cases "silenceTimerRef s")
       (simp_all add: s1 cleanup_def cleanupSpeech_def Let_def synth_cancel_def
         recognition_stop_def clearTimeout_def)
  show ?thesis
    using c by (cases "silenceTimerRef s") (simp_all add: e invariant_clearTimeout)
qed

lemma step_invariant:
  assumes "invariant s" and "step r e s = Some s1"
    and "\<And>i rs. e = RecOnResult i rs \<Longrightarrow> recognizer s = Active"
  shows "invariant s1"
proof (cases e)
  case (Fire i)
  with assms show ?thesis by (auto intro: fire_invariant)
next
  case RecOnStart
  with assms show ?thesis by (auto intro: recognizer_invariant)
next
  case (RecOnResult i rs)
  with assms(3) have "recognizer s = Active" by simp
  with assms(1,2) RecOnResult show ?thesis
    by (auto simp add: step_def onresult_invariant)
next
  case (RecOnError kind)
  with assms show ?thesis by (auto intro: recognizer_invariant)
next
  case RecOnEnd
  with assms show ?thesis by (auto intro: recognizer_invariant)
next
  case UttOnStart
  with assms show ?thesis by (auto intro: utterance_invariant)
next
  case UttOnEnd
  with assms show ?thesis by (auto intro: utterance_invariant)
next
  case UttOnError
  with assms show ?thesis by (auto intro: utterance_invariant)
next
  case (Settle i out)
  with assms show ?thesis by (auto intro: settle_invariant)
next
  case Unmount
  with assms show ?thesis by (auto intro: unmount_invariant)
qed

lemma run_invariant:
  "invariant s \<Longrightarrow> prompt r es s \<Longrightarrow> run r es s = Some s1 \<Longrightarrow> invariant s1"
proof (induction es arbitrary: s)
  case Nil
  then show ?case by simp
next
  case (Cons e es)
  from Cons.prems(3) obtain s0 where s0: "step r e s = Some s0" "run r es s0 = Some s1"
    by (auto split: option.splits)
  from Cons.prems(2) s0(1) have p: "prompt r es s0"
    and a: "\<And>i rs. e = RecOnResult i rs \<Longrightarrow> recognizer s = Active"
    by auto
  from step_invariant [OF Cons.prems(1) s0(1) a] have "invariant s0" .
  from this p s0(2) show ?case
    by (rule Cons.IH)
qed

lemma mount_invariant: "invariant (mount p)"
  by (auto simp add: mount_def Let_def initializeSpeechRecognition_def first_render_def
      prim_defs inv_defs)

text \<open>
  As long as every result of the recognizer arrives while the recognizer is active, the
  two flags exclude each other: in every state that such a sequence of calls reaches from
  mounting, with any props and for the callbacks of any render, \<open>isListening\<close> and
  \<open>isSpeaking\<close> are not both true.
\<close>

lemma exclusive_without_late_results:
  assumes "run r es (mount p) = Some s" and "prompt r es (mount p)"
  shows "\<not> (isListening (hooks s) \<and> isSpeaking (hooks s))"
proof -
  from run_invariant [OF mount_invariant assms(2) assms(1)] have "invariant s" .
  then show ?thesis
    by (auto simp add: invariant_def hooks_ok_def split: if_splits)
qed

text \<open>
  C3. The flags \<open>isListening\<close> and \<open>isSpeaking\<close> are both true in a reachable state of a
  mounted session, and a playback begins while the capture runs. \<open>stopListening\<close> ends the
  capture with \<open>stop()\<close>, after which the recognizer may still deliver a final result, and
  \<open>recognition.onresult\<close> arms the silence timer for it without asking whether the
  component is listening. In \<open>late_result_session\<close> the user asks for the question to be
  repeated and goes on speaking; the result that arrives after \<open>stop()\<close> is processed as
  a second answer while the repeated question leads back to listening, so that the
  recognizer is started at 5900 ms and the follow-up to the second answer starts to play
  at 7110 ms: then the recognizer is active, its start came after the last \<open>stop()\<close>,
  \<open>isListening\<close> and \<open>isSpeaking\<close> are both true, and the component is mounted.
\<close>

theorem late_result_listening_while_speaking:
  "map_option (recognizer \<circ> snd \<circ> snd)
     (timed_run (first_render demo) (take 2 late_result_session) listening_clocked_demo) =
     Some Stopping
   \<and> map_option
        (\<lambda>c. (fst c, isListening (hooks (snd (snd c))), isSpeaking (hooks (snd (snd c))),
              recognizer (snd (snd c)), mounted (snd (snd c)), synth (snd (snd c))))
        (timed_run (first_render demo) late_result_session listening_clocked_demo) =
      Some (7110, True, True, Active, True,
            [(''Tell me more about that team.'',
              AfterAiResponse ''Tell me more about that team.'' ''I led a team of five.'',
              True)])"
  by code_simp

subsection \<open>Playback and its continuation\<close>



















end
